theory Spec2Isabelle
  imports Complex_Main "HOL-Library.Sublist" "HOL-Library.Multiset"
    "HOL-Library.Char_ord" "HOL-Library.List_Lexorder"
begin

section \<open>Values, errors and the run state\<close>

text \<open>
  The script works on what \<^verbatim>\<open>json.load\<close>/\<^verbatim>\<open>json.loads\<close> return: Python objects built
  from JSON text. A dict is an association list in insertion order with distinct keys
  (the parser keeps one entry per key); a Python \<^verbatim>\<open>int\<close> is unbounded; a Python
  \<^verbatim>\<open>float\<close> that is finite is a rational number. The tokens \<^verbatim>\<open>NaN\<close> and
  \<^verbatim>\<open>Infinity\<close>, which are not JSON, are not represented. A Python \<^verbatim>\<open>str\<close> is a
  \<open>string\<close>; the only characters the script looks at are ASCII.
\<close>

datatype json =
    JNull
  | JBool bool
  | JInt int
  | JFloat rat
  | JStr string
  | JArr "json list"
  | JObj "(string \<times> json) list"

datatype error =
    KeyError string
  | TypeError
  | ValueError
  | IndexError
  | AttributeError
  | ZeroDivisionError
  | JSONDecodeError
  | APIError string

section \<open>The Python operations the script applies to these values\<close>

text \<open>\<open>truthy x\<close> is \<^verbatim>\<open>bool(x)\<close>, the test of \<^verbatim>\<open>if result:\<close>.\<close>

fun truthy :: "json \<Rightarrow> bool" where
  "truthy JNull = False"
| "truthy (JBool b) = b"
| "truthy (JInt i) = (i \<noteq> 0)"
| "truthy (JFloat r) = (r \<noteq> 0)"
| "truthy (JStr s) = (s \<noteq> [])"
| "truthy (JArr xs) = (xs \<noteq> [])"
| "truthy (JObj kvs) = (kvs \<noteq> [])"

text \<open>
  \<open>getitem x k\<close> is \<^verbatim>\<open>x['k']\<close> with a string key: a dict without the key raises
  KeyError, every other value raises TypeError.
\<close>

fun getitem :: "json \<Rightarrow> string \<Rightarrow> error + json" where
  "getitem (JObj kvs) k = (case map_of kvs k of Some v \<Rightarrow> Inr v | None \<Rightarrow> Inl (KeyError k))"
| "getitem _ k = Inl TypeError"

text \<open>
  \<open>iterate x\<close> lists what \<^verbatim>\<open>list.extend(x)\<close> appends: the elements of a list, the
  characters of a string, the keys of a dict; any other value is not iterable.
\<close>

fun iterate :: "json \<Rightarrow> error + json list" where
  "iterate (JArr xs) = Inr xs"
| "iterate (JStr s) = Inr (map (\<lambda>c. JStr [c]) s)"
| "iterate (JObj kvs) = Inr (map (\<lambda>kv. JStr (fst kv)) kvs)"
| "iterate _ = Inl TypeError"

text \<open>
  Ordering, as \<^verbatim>\<open>sorted\<close> uses it (only \<^verbatim>\<open><\<close> is called). Numbers compare by value
  across \<^verbatim>\<open>bool\<close>, \<^verbatim>\<open>int\<close> and \<^verbatim>\<open>float\<close>; strings and lists compare
  lexicographically, a list through \<^verbatim>\<open>==\<close> on its elements first; every other pair
  of operands raises TypeError. \<open>canon\<close> maps values that are \<^verbatim>\<open>==\<close> in Python to
  the same value.
\<close>

fun num_val :: "json \<Rightarrow> rat option" where
  "num_val (JBool b) = Some (if b then 1 else 0)"
| "num_val (JInt i) = Some (of_int i)"
| "num_val (JFloat r) = Some r"
| "num_val _ = None"

primrec canon :: "json \<Rightarrow> json" where
  "canon JNull = JNull"
| "canon (JBool b) = JFloat (if b then 1 else 0)"
| "canon (JInt i) = JFloat (of_int i)"
| "canon (JFloat r) = JFloat r"
| "canon (JStr s) = JStr s"
| "canon (JArr xs) = JArr (map canon xs)"
| "canon (JObj kvs) = JObj (sort_key fst (map (map_prod id canon) kvs))"

definition py_eq :: "json \<Rightarrow> json \<Rightarrow> bool" where
  "py_eq a b \<longleftrightarrow> canon a = canon b"

fun py_lt :: "json \<Rightarrow> json \<Rightarrow> error + bool"
  and arr_lt :: "json list \<Rightarrow> json list \<Rightarrow> error + bool" where
  "py_lt (JStr s) (JStr t) = Inr (s < t)"
| "py_lt (JArr xs) (JArr ys) = arr_lt xs ys"
| "py_lt a b =
     (case (num_val a, num_val b) of
        (Some x, Some y) \<Rightarrow> Inr (x < y)
      | _ \<Rightarrow> Inl TypeError)"
| "arr_lt [] [] = Inr False"
| "arr_lt [] (y # ys) = Inr True"
| "arr_lt (x # xs) [] = Inr False"
| "arr_lt (x # xs) (y # ys) = (if py_eq x y then arr_lt xs ys else py_lt x y)"

section \<open>Response extractor\<close>

text \<open>
  \<^verbatim>\<open>re.search(r'```json\n(.*?)\n```', response_text, re.DOTALL)\<close>: the pattern is the
  literal opening fence and marker, a lazy group of arbitrary characters (with DOTALL the
  dot also matches a newline), and the literal closing fence. \<open>re_search\<close> tries the start
  positions from the left, \<open>lazy_group\<close> lengthens the group one character at a time
  until the rest of the pattern matches, as the backtracking matcher does.
\<close>

definition fence_open :: string where
  "fence_open = ''```json'' @ [CHR 0x0A]"

definition fence_close :: string where
  "fence_close = CHR 0x0A # ''```''"

fun lazy_group :: "string \<Rightarrow> string \<Rightarrow> string option" where
  "lazy_group cl [] = (if prefix cl [] then Some [] else None)"
| "lazy_group cl (c # cs) =
     (if prefix cl (c # cs) then Some []
      else map_option (Cons c) (lazy_group cl cs))"

definition match_here :: "string \<Rightarrow> string option" where
  "match_here s =
     (if prefix fence_open s then lazy_group fence_close (drop (length fence_open) s)
      else None)"

fun re_search :: "string \<Rightarrow> string option" where
  "re_search [] = match_here []"
| "re_search (c # cs) =
     (case match_here (c # cs) of
        Some g \<Rightarrow> Some g
      | None \<Rightarrow> re_search cs)"

definition extract_json_from_response :: "string \<Rightarrow> string" where
  "extract_json_from_response response_text =
     (case re_search response_text of
        Some g \<Rightarrow> g
      | None \<Rightarrow> response_text)"

section \<open>Configuration, the completion client and the observable effects\<close>

text \<open>
  \<open>args\<close> is the namespace \<^verbatim>\<open>parse_args\<close> returns; \<^verbatim>\<open>--output-format\<close> has the two
  choices of \<open>fmt\<close>, \<^verbatim>\<open>--batch-size\<close> is any integer.
\<close>

datatype fmt = Json | Csv

record args =
  job :: string
  batch_size :: int
  model :: string
  output_format :: fmt

text \<open>
  The request of \<^verbatim>\<open>client.chat.completions.create\<close> is determined by the model name,
  the job title (system message and prompt) and, for each company of the batch in order,
  the two values the prompt template prints: \<^verbatim>\<open>company['company']\<close> and
  \<^verbatim>\<open>company['about']\<close>. The client is outside the script and is not deterministic
  (temperature 0.7), so it is a parameter: the outcome of the call made for batch number
  \<open>k\<close> is either an exception or the list of \<^verbatim>\<open>message.content\<close> of the choices
  (\<open>None\<close> for a choice without text). \<^verbatim>\<open>json.loads\<close> is the library parser, a
  parameter as well.
\<close>

record request =
  req_model :: string
  req_job :: string
  req_companies :: "(json \<times> json) list"

type_synonym client = "nat \<Rightarrow> request \<Rightarrow> error + string option list"

type_synonym loads = "string \<Rightarrow> error + json"

text \<open>
  What a run leaves behind: the lines given to \<^verbatim>\<open>logging\<close>, the calls to the client
  and to \<^verbatim>\<open>sleep\<close>, in the order they happen, and the content of the output file.
  A JSON file holds the list that was dumped; a CSV file holds its header and the rows of
  cell values (a value is turned into text by the \<^verbatim>\<open>csv\<close> writer, which is not modelled).
  \<open>out_file = None\<close> stands for a file this run has not written.
\<close>

datatype file_content =
    JsonFile "json list"
  | CsvFile "string list" "json list list"

datatype event =
    LoadedInfo nat
  | ProcessingInfo nat nat
  | ApiCall nat request
  | BatchError nat error
  | SavedInfo fmt
  | BatchOkInfo nat
  | CostInfo rat
  | Sleep nat
  | TopHeaderInfo
  | CompanyInfo json
  | ScoreInfo json
  | ExplanationInfo json
  | MainError error

record state =
  events :: "event list"
  out_file :: "file_content option"
  current_batch :: "json list"
  all_results :: "json list"
  batch_num :: nat

definition emit :: "event \<Rightarrow> state \<Rightarrow> state" where
  "emit e st = st\<lparr>events := events st @ [e]\<rparr>"

section \<open>Pacing and the result sink\<close>

text \<open>
  \<^verbatim>\<open>rate_limit_handler\<close> (its parameter \<^verbatim>\<open>batch_size\<close> is \<open>bsize\<close> here): the
  division raises for a batch size of zero; the estimate is kept as the exact quotient (the rounding of \<^verbatim>\<open>float\<close> and of \<^verbatim>\<open>:.2f\<close> is not
  modelled), then the estimate is logged and the process sleeps two seconds.
\<close>

definition rate_limit_handler :: "int \<Rightarrow> int \<Rightarrow> state \<Rightarrow> state \<times> error option" where
  "rate_limit_handler bsize total_processed st =
     (if bsize = 0 then (st, Some ZeroDivisionError)
      else (emit (Sleep 2)
              (emit (CostInfo (of_int total_processed / of_int bsize * (1 / 100))) st),
            None))"

text \<open>
  \<^verbatim>\<open>save_results\<close>. The CSV branch builds
  \<^verbatim>\<open>csv.DictWriter(f, fieldnames=['company_name', 'score', 'explanation'])\<close> with the
  library defaults \<^verbatim>\<open>restval=''\<close> and \<^verbatim>\<open>extrasaction='raise'\<close>: \<open>dict_to_list\<close> is
  the writer's conversion of one row (a row that is not a dict has no \<^verbatim>\<open>keys\<close>, a dict
  with a key outside the field names raises ValueError, a missing field is the empty
  string). The file is opened for writing, so it is emptied; the header and the rows
  before a failing row are in it when the exception leaves \<^verbatim>\<open>save_results\<close>.
\<close>

definition csv_fieldnames :: "string list" where
  "csv_fieldnames = [''company_name'', ''score'', ''explanation'']"

fun dict_to_list :: "string list \<Rightarrow> json \<Rightarrow> error + json list" where
  "dict_to_list fieldnames (JObj kvs) =
     (if \<exists>k \<in> set (map fst kvs). k \<notin> set fieldnames then Inl ValueError
      else Inr (map (\<lambda>k. case map_of kvs k of Some v \<Rightarrow> v | None \<Rightarrow> JStr []) fieldnames))"
| "dict_to_list fieldnames _ = Inl AttributeError"

fun writerows :: "string list \<Rightarrow> json list \<Rightarrow> json list list \<times> error option" where
  "writerows fieldnames [] = ([], None)"
| "writerows fieldnames (rowdict # rowdicts) =
     (case dict_to_list fieldnames rowdict of
        Inl e \<Rightarrow> ([], Some e)
      | Inr row \<Rightarrow>
          (case writerows fieldnames rowdicts of
             (rows, r) \<Rightarrow> (row # rows, r)))"

fun save_results :: "json list \<Rightarrow> fmt \<Rightarrow> state \<Rightarrow> state \<times> error option" where
  "save_results results Json st =
     (emit (SavedInfo Json) (st\<lparr>out_file := Some (JsonFile results)\<rparr>), None)"
| "save_results results Csv st =
     (case writerows csv_fieldnames results of
        (rows, Some e) \<Rightarrow> (st\<lparr>out_file := Some (CsvFile csv_fieldnames rows)\<rparr>, Some e)
      | (rows, None) \<Rightarrow>
          (emit (SavedInfo Csv) (st\<lparr>out_file := Some (CsvFile csv_fieldnames rows)\<rparr>), None))"

section \<open>Batch analyzer\<close>

text \<open>
  \<^verbatim>\<open>analyze_batch\<close>. The prompt is built before the \<^verbatim>\<open>try\<close>, so a company that is
  not a dict or lacks one of the two keys raises out of the function (\<open>Inl\<close>). Inside the
  \<^verbatim>\<open>try\<close>, the call, \<^verbatim>\<open>response.choices[0]\<close> (IndexError without choices), the
  extractor (TypeError on a content of \<^verbatim>\<open>None\<close>) and the parser can raise: each is
  logged with the batch number and the function returns \<^verbatim>\<open>None\<close>, which is \<open>JNull\<close>
  here, as for the caller it is the value the text \<^verbatim>\<open>null\<close> parses to. The parameters
  \<^verbatim>\<open>batch_num\<close>, \<^verbatim>\<open>job\<close> and \<^verbatim>\<open>model\<close> are \<open>bnum\<close>, \<open>jb\<close> and \<open>mdl\<close>, their
  names being those of fields of the state and of \<open>args\<close>.
\<close>

fun render_companies :: "json list \<Rightarrow> error + (json \<times> json) list" where
  "render_companies [] = Inr []"
| "render_companies (company # rest) =
     (case getitem company ''company'' of
        Inl e \<Rightarrow> Inl e
      | Inr nm \<Rightarrow>
          (case getitem company ''about'' of
             Inl e \<Rightarrow> Inl e
           | Inr about \<Rightarrow>
               (case render_companies rest of
                  Inl e \<Rightarrow> Inl e
                | Inr ps \<Rightarrow> Inr ((nm, about) # ps))))"

definition analyze_batch ::
  "client \<Rightarrow> loads \<Rightarrow> json list \<Rightarrow> nat \<Rightarrow> string \<Rightarrow> string \<Rightarrow> state \<Rightarrow> state \<times> (error + json)" where
  "analyze_batch client loads companies_batch bnum jb mdl st =
     (case render_companies companies_batch of
        Inl e \<Rightarrow> (st, Inl e)
      | Inr companies_text \<Rightarrow>
          (let req = \<lparr>req_model = mdl, req_job = jb, req_companies = companies_text\<rparr>;
               st1 = emit (ApiCall bnum req) st;
               failed = (\<lambda>e. (emit (BatchError bnum e) st1, Inr JNull))
           in case client bnum req of
                Inl e \<Rightarrow> failed e
              | Inr choices \<Rightarrow>
                  (case choices of
                     [] \<Rightarrow> failed IndexError
                   | content # _ \<Rightarrow>
                       (case content of
                          None \<Rightarrow> failed TypeError
                        | Some response_text \<Rightarrow>
                            (case loads (extract_json_from_response response_text) of
                               Inl e \<Rightarrow> failed e
                             | Inr v \<Rightarrow> (st1, Inr v))))))"

section \<open>Orchestration loop\<close>

text \<open>
  \<^verbatim>\<open>main\<close>, from the point where the companies are loaded (the API key, the job title
  and the input file are checked before). \<open>accumulate\<close> is the body of
  \<^verbatim>\<open>if result:\<close>, \<open>process_batch\<close> the body of the test on the batch size and the last
  index, \<open>companies_loop\<close> the \<^verbatim>\<open>for i, company in enumerate(companies)\<close> loop with
  \<open>n = len(companies)\<close>. An exception leaves the loop with the state as it is (\<open>Some e\<close>).
\<close>

definition accumulate :: "json \<Rightarrow> fmt \<Rightarrow> state \<Rightarrow> state \<times> error option" where
  "accumulate result f st =
     (case getitem result ''analyses'' of
        Inl e \<Rightarrow> (st, Some e)
      | Inr analyses \<Rightarrow>
          (case iterate analyses of
             Inl e \<Rightarrow> (st, Some e)
           | Inr items \<Rightarrow>
               (let st1 = st\<lparr>all_results := all_results st @ items\<rparr>
                in case save_results (all_results st1) f st1 of
                     (st2, Some e) \<Rightarrow> (st2, Some e)
                   | (st2, None) \<Rightarrow> (emit (BatchOkInfo (batch_num st2)) st2, None))))"

definition process_batch ::
  "client \<Rightarrow> loads \<Rightarrow> args \<Rightarrow> nat \<Rightarrow> nat \<Rightarrow> state \<Rightarrow> state \<times> error option" where
  "process_batch client loads a n i st =
     (let st1 = emit (ProcessingInfo (batch_num st) (length (current_batch st))) st
      in case analyze_batch client loads (current_batch st1) (batch_num st1) (job a) (model a) st1 of
           (st2, Inl e) \<Rightarrow> (st2, Some e)
         | (st2, Inr result) \<Rightarrow>
             (case (if truthy result then accumulate result (output_format a) st2
                    else (st2, None)) of
                (st3, Some e) \<Rightarrow> (st3, Some e)
              | (st3, None) \<Rightarrow>
                  (let st4 = st3\<lparr>current_batch := [], batch_num := batch_num st3 + 1\<rparr>
                   in if int i < int n - 1
                      then rate_limit_handler (batch_size a) (int i + 1) st4
                      else (st4, None))))"

fun companies_loop ::
  "client \<Rightarrow> loads \<Rightarrow> args \<Rightarrow> nat \<Rightarrow> nat \<Rightarrow> json list \<Rightarrow> state \<Rightarrow> state \<times> error option" where
  "companies_loop client loads a n i [] st = (st, None)"
| "companies_loop client loads a n i (company # rest) st =
     (let st1 = st\<lparr>current_batch := current_batch st @ [company]\<rparr>
      in if int (length (current_batch st1)) = batch_size a \<or> int i = int n - 1
         then (case process_batch client loads a n i st1 of
                 (st2, Some e) \<Rightarrow> (st2, Some e)
               | (st2, None) \<Rightarrow> companies_loop client loads a n (i + 1) rest st2)
         else companies_loop client loads a n (i + 1) rest st1)"

text \<open>
  \<^verbatim>\<open>sorted(all_results, key=lambda x: x['score'], reverse=True)\<close>: the keys are taken
  first, in order; the list is then sorted the way CPython sorts in reverse, by reversing
  it, sorting it stably in ascending order with \<^verbatim>\<open><\<close>, and reversing the result. The
  stable sort is an insertion sort here: on keys that \<^verbatim>\<open><\<close> orders totally every
  stable sort returns the same list.
\<close>

fun score_keys :: "json list \<Rightarrow> error + (json \<times> json) list" where
  "score_keys [] = Inr []"
| "score_keys (x # xs) =
     (case getitem x ''score'' of
        Inl e \<Rightarrow> Inl e
      | Inr k \<Rightarrow>
          (case score_keys xs of
             Inl e \<Rightarrow> Inl e
           | Inr kxs \<Rightarrow> Inr ((k, x) # kxs)))"

fun insort_lt :: "json \<times> json \<Rightarrow> (json \<times> json) list \<Rightarrow> error + (json \<times> json) list" where
  "insort_lt x [] = Inr [x]"
| "insort_lt x (y # ys) =
     (case py_lt (fst y) (fst x) of
        Inl e \<Rightarrow> Inl e
      | Inr True \<Rightarrow>
          (case insort_lt x ys of
             Inl e \<Rightarrow> Inl e
           | Inr zs \<Rightarrow> Inr (y # zs))
      | Inr False \<Rightarrow> Inr (x # y # ys))"

fun sort_lt :: "(json \<times> json) list \<Rightarrow> error + (json \<times> json) list" where
  "sort_lt [] = Inr []"
| "sort_lt (x # xs) =
     (case sort_lt xs of
        Inl e \<Rightarrow> Inl e
      | Inr ys \<Rightarrow> insort_lt x ys)"

definition sorted_by_score :: "json list \<Rightarrow> error + json list" where
  "sorted_by_score xs =
     (case score_keys xs of
        Inl e \<Rightarrow> Inl e
      | Inr kxs \<Rightarrow>
          (case sort_lt (rev kxs) of
             Inl e \<Rightarrow> Inl e
           | Inr s \<Rightarrow> Inr (map snd (rev s))))"

text \<open>The three lines logged for each of \<^verbatim>\<open>sorted_results[:10]\<close>.\<close>

fun log_top :: "json list \<Rightarrow> state \<Rightarrow> state \<times> error option" where
  "log_top [] st = (st, None)"
| "log_top (result # rest) st =
     (case getitem result ''company_name'' of
        Inl e \<Rightarrow> (st, Some e)
      | Inr nm \<Rightarrow>
          (let st1 = emit (CompanyInfo nm) st
           in case getitem result ''score'' of
                Inl e \<Rightarrow> (st1, Some e)
              | Inr sc \<Rightarrow>
                  (let st2 = emit (ScoreInfo sc) st1
                   in case getitem result ''explanation'' of
                        Inl e \<Rightarrow> (st2, Some e)
                      | Inr ex \<Rightarrow> log_top rest (emit (ExplanationInfo ex) st2))))"

definition init_state :: "json list \<Rightarrow> state" where
  "init_state companies =
     \<lparr>events = [LoadedInfo (length companies)], out_file = None,
      current_batch = [], all_results = [], batch_num = 1\<rparr>"

definition main_try :: "client \<Rightarrow> loads \<Rightarrow> args \<Rightarrow> json list \<Rightarrow> state \<times> error option" where
  "main_try client loads a companies =
     (case companies_loop client loads a (length companies) 0 companies (init_state companies) of
        (st1, Some e) \<Rightarrow> (st1, Some e)
      | (st1, None) \<Rightarrow>
          (case sorted_by_score (all_results st1) of
             Inl e \<Rightarrow> (st1, Some e)
           | Inr sorted_results \<Rightarrow>
               (case save_results sorted_results (output_format a) st1 of
                  (st2, Some e) \<Rightarrow> (st2, Some e)
                | (st2, None) \<Rightarrow> log_top (take 10 sorted_results) (emit TopHeaderInfo st2))))"

text \<open>
  The handler of \<^verbatim>\<open>main\<close> logs the exception and raises it again: the run ends with
  the error.
\<close>

definition main :: "client \<Rightarrow> loads \<Rightarrow> args \<Rightarrow> json list \<Rightarrow> state \<times> error option" where
  "main client loads a companies =
     (case main_try client loads a companies of
        (st, Some e) \<Rightarrow> (emit (MainError e) st, Some e)
      | (st, None) \<Rightarrow> (st, None))"

section \<open>The notions of the specification\<close>

text \<open>
  A string contains a JSON-marked fenced block when it is some prose, the opening fence
  with its marker and the line break that ends that line, an inner text, the line break
  and the closing fence that starts the next line, and more prose. The inner text lies
  between the two line breaks (fences with a single line break between them enclose no
  inner text and are no block in this sense). \<open>first_at p pre\<close> says that in a
  string that starts with \<open>pre @ p\<close> no occurrence of \<open>p\<close> starts before the one after
  \<open>pre\<close>: the block is the first one, and its inner text ends at the first closing
  fence.
\<close>

definition has_fenced_block :: "string \<Rightarrow> bool" where
  "has_fenced_block s \<longleftrightarrow>
     (\<exists>pre inner post. s = pre @ fence_open @ inner @ fence_close @ post)"

definition first_at :: "string \<Rightarrow> string \<Rightarrow> bool" where
  "first_at p pre \<longleftrightarrow>
     (\<forall>k < length pre. \<not> prefix p (drop k (pre @ p)))"





text \<open>
  A record the CSV sink accepts is an object with no field beyond the three columns; its
  row has one cell per column, empty for a field the record lacks.
\<close>

fun csv_row_ok :: "json \<Rightarrow> bool" where
  "csv_row_ok (JObj kvs) = (\<forall>k \<in> set (map fst kvs). k \<in> set csv_fieldnames)"
| "csv_row_ok _ = False"

definition csv_cell :: "json \<Rightarrow> string \<Rightarrow> json" where
  "csv_cell r k = (case getitem r k of Inr v \<Rightarrow> v | Inl e \<Rightarrow> JStr [])"

definition csv_cells :: "json \<Rightarrow> json list" where
  "csv_cells r = [csv_cell r ''company_name'', csv_cell r ''score'', csv_cell r ''explanation'']"

text \<open>
  The partition of the specification: contiguous batches of the configured size, the
  last one holding the remainder. For a batch size that is not positive the whole list
  is one batch, which is what the loop does then. \<open>numbered\<close> gives the batches their
  numbers, from 1.
\<close>

function batches_of :: "int \<Rightarrow> 'a list \<Rightarrow> 'a list list" where
  "batches_of B xs =
     (if xs = [] then []
      else if B \<le> 0 \<or> int (length xs) \<le> B then [xs]
      else take (nat B) xs # batches_of B (drop (nat B) xs))"
  by pat_completeness auto
termination
  by (relation "measure (\<lambda>(B, xs). length xs)") auto

definition numbered :: "'a list \<Rightarrow> (nat \<times> 'a) list" where
  "numbered bs = enumerate 1 bs"

text \<open>
  The loop seen batch by batch: \<open>run_batches\<close> processes a list of batches, the first
  one starting at index \<open>i\<close> of the company list; each batch is handed to the loop body
  at the index of its last company.
\<close>

fun run_batches ::
  "client \<Rightarrow> loads \<Rightarrow> args \<Rightarrow> nat \<Rightarrow> nat \<Rightarrow> json list list \<Rightarrow> state \<Rightarrow> state \<times> error option" where
  "run_batches client loads a n i [] st = (st, None)"
| "run_batches client loads a n i (b # bs) st =
     (case process_batch client loads a n (i + length b - 1) (st\<lparr>current_batch := b\<rparr>) of
        (st', Some e) \<Rightarrow> (st', Some e)
      | (st', None) \<Rightarrow> run_batches client loads a n (i + length b) bs st')"

text \<open>
  What is read off the events of a run: the calls to the client with their batch number,
  the company fields each call carried, the batches announced in the log with number
  and size, the batch errors logged, and the events that matter for pacing (a batch is
  announced, a cost estimate is logged, the process sleeps).
\<close>

definition api_calls :: "event list \<Rightarrow> (nat \<times> request) list" where
  "api_calls es = concat (map (\<lambda>e. case e of ApiCall k r \<Rightarrow> [(k, r)] | _ \<Rightarrow> []) es)"

definition api_batches :: "event list \<Rightarrow> (json \<times> json) list list" where
  "api_batches es = map (\<lambda>kr. req_companies (snd kr)) (api_calls es)"

definition processing :: "event list \<Rightarrow> (nat \<times> nat) list" where
  "processing es = concat (map (\<lambda>e. case e of ProcessingInfo k m \<Rightarrow> [(k, m)] | _ \<Rightarrow> []) es)"

definition batch_errors :: "event list \<Rightarrow> (nat \<times> error) list" where
  "batch_errors es = concat (map (\<lambda>e. case e of BatchError k x \<Rightarrow> [(k, x)] | _ \<Rightarrow> []) es)"

definition pacing :: "event list \<Rightarrow> event list" where
  "pacing es =
     filter (\<lambda>e. case e of ProcessingInfo k m \<Rightarrow> True | CostInfo c \<Rightarrow> True | Sleep s \<Rightarrow> True
                 | _ \<Rightarrow> False) es"

text \<open>
  The pacing the specification asks for, over the batches \<open>bs\<close> numbered from \<open>k\<close> when
  \<open>m\<close> companies came before them: after every batch but the last, the cost estimate
  for the companies processed so far and the sleep of two seconds.
\<close>

fun pace_events :: "int \<Rightarrow> nat \<Rightarrow> nat \<Rightarrow> json list list \<Rightarrow> event list" where
  "pace_events B k m [] = []"
| "pace_events B k m [b] = [ProcessingInfo k (length b)]"
| "pace_events B k m (b # b' # bs) =
     [ProcessingInfo k (length b),
      CostInfo (of_int (int (m + length b)) / of_int B * (1 / 100)),
      Sleep 2] @ pace_events B (Suc k) (m + length b) (b' # bs)"

text \<open>
  An entity of the input file is an object with the fields \<^verbatim>\<open>company\<close> and
  \<^verbatim>\<open>about\<close>. \<open>render_ps\<close> is the list of fields the prompt of a batch carries.
\<close>

fun is_entity :: "json \<Rightarrow> bool" where
  "is_entity (JObj kvs) = (map_of kvs ''company'' \<noteq> None \<and> map_of kvs ''about'' \<noteq> None)"
| "is_entity _ = False"

definition render_ps :: "json list \<Rightarrow> (json \<times> json) list" where
  "render_ps b = (case render_companies b of Inr ps \<Rightarrow> ps | Inl e \<Rightarrow> [])"

text \<open>
  The results of batch number \<open>k\<close> with companies \<open>b\<close>: what the analyzer returns for
  it, and the items the loop appends when the batch is successful, that is when the
  result is truthy and its \<^verbatim>\<open>analyses\<close> can be appended. \<open>accumulated\<close> concatenates
  the results of the successful batches of a numbered list, in order; \<open>file_of\<close> is the
  content of the output file after a list of results was saved.
\<close>

definition batch_result :: "client \<Rightarrow> loads \<Rightarrow> args \<Rightarrow> nat \<Rightarrow> json list \<Rightarrow> error + json" where
  "batch_result client loads a k b =
     snd (analyze_batch client loads b k (job a) (model a) (init_state []))"

definition batch_items :: "client \<Rightarrow> loads \<Rightarrow> args \<Rightarrow> nat \<Rightarrow> json list \<Rightarrow> json list option" where
  "batch_items client loads a k b =
     (case batch_result client loads a k b of
        Inl e \<Rightarrow> None
      | Inr result \<Rightarrow>
          if truthy result
          then (case getitem result ''analyses'' of
                  Inl e \<Rightarrow> None
                | Inr analyses \<Rightarrow>
                    (case iterate analyses of Inl e \<Rightarrow> None | Inr items \<Rightarrow> Some items))
          else None)"

definition accumulated ::
  "client \<Rightarrow> loads \<Rightarrow> args \<Rightarrow> (nat \<times> json list) list \<Rightarrow> json list" where
  "accumulated client loads a kbs =
     concat (map (\<lambda>kb. case batch_items client loads a (fst kb) (snd kb) of
                          Some items \<Rightarrow> items | None \<Rightarrow> []) kbs)"

fun file_of :: "fmt \<Rightarrow> json list \<Rightarrow> file_content" where
  "file_of Json results = JsonFile results"
| "file_of Csv results = CsvFile csv_fieldnames (map csv_cells results)"

text \<open>
  The state after a batch that contributes nothing: the events \<open>es\<close> of the batch are
  logged, then the cost line and the sleep if companies remain after index \<open>i\<close>; the
  current batch is reset and the batch number incremented. The accumulated results and
  the output file are as before.
\<close>

definition advance :: "args \<Rightarrow> nat \<Rightarrow> nat \<Rightarrow> event list \<Rightarrow> state \<Rightarrow> state" where
  "advance a n i es st =
     st\<lparr>events := events st @ es @
           (if int i < int n - 1
            then [CostInfo (of_int (int i + 1) / of_int (batch_size a) * (1 / 100)), Sleep 2]
            else []),
        current_batch := [], batch_num := batch_num st + 1\<rparr>"

section \<open>Concrete inputs\<close>

definition scored :: "string \<Rightarrow> json \<Rightarrow> string \<Rightarrow> json" where
  "scored nm sc ex = JObj [(''company_name'', JStr nm), (''score'', sc), (''explanation'', JStr ex)]"




text \<open>
  A run on three companies with a batch size of two: the client answers every call with
  a fenced JSON text holding one scored entity, and \<open>ex_loads\<close> is \<^verbatim>\<open>json.loads\<close> on
  the three texts used here.
\<close>

definition entity :: "string \<Rightarrow> string \<Rightarrow> json" where
  "entity nm about = JObj [(''company'', JStr nm), (''about'', JStr about)]"

definition ex_companies :: "json list" where
  "ex_companies = [entity ''Acme'' ''robots'', entity ''Bolt'' ''bikes'', entity ''Cafe'' ''coffee'']"

definition ex_args :: args where
  "ex_args = \<lparr>job = ''data engineer'', batch_size = 2, model = ''gpt-4o-mini'', output_format = Json\<rparr>"

definition ex_text :: string where
  \<open>ex_text = ''{"analyses": [{"company_name": "Acme", "score": 80, "explanation": "bien"}]}''\<close>

definition ex_text_no_key :: string where
  \<open>ex_text_no_key = ''{"foo": 1}''\<close>

definition ex_loads :: loads where
  "ex_loads s =
     (if s = ex_text then Inr (JObj [(''analyses'', JArr [scored ''Acme'' (JInt 80) ''bien''])])
      else if s = ex_text_no_key then Inr (JObj [(''foo'', JInt 1)])
      else if s = ''{}'' then Inr (JObj [])
      else Inl JSONDecodeError)"

definition ex_client :: client where
  "ex_client k r = Inr [Some (''Voici : '' @ fence_open @ ex_text @ fence_close)]"

text \<open>
  The same run with a batch size of zero, and three other clients: one that answers with
  an object lacking the key \<^verbatim>\<open>analyses\<close>, one that answers with the empty object, and
  one that raises on every call.
\<close>

definition ex_args_zero :: args where
  "ex_args_zero = ex_args\<lparr>batch_size := 0\<rparr>"

definition no_key_client :: client where
  "no_key_client k r = Inr [Some ex_text_no_key]"

definition empty_object_client :: client where
  "empty_object_client k r = Inr [Some ''{}'']"

definition failing_client :: client where
  "failing_client k r = Inl (APIError ''connection refused'')"

section \<open>The extractor returns the first fenced block\<close>

lemma prefix_append_long:
  "length p \<le> length a \<Longrightarrow> prefix p (a @ b) \<longleftrightarrow> prefix p a"
  using prefix_length_prefix [of p "a @ b" a] prefix_prefix [of p a b] by auto

lemma first_at_Nil: "first_at p []"
  by (simp add: first_at_def)

lemma first_at_Cons:
  "first_at p (c # g) \<longleftrightarrow> \<not> prefix p (c # g @ p) \<and> first_at p g"
proof -
  have "(\<forall>k < Suc (length g). \<not> prefix p (drop k (c # g @ p))) \<longleftrightarrow>
        (\<not> prefix p (c # g @ p) \<and> (\<forall>k < length g. \<not> prefix p (drop k (g @ p))))"
    by (auto simp: less_Suc_eq_0_disj)
  then show ?thesis by (simp add: first_at_def)
qed

lemma lazy_group_Some:
  assumes "cl \<noteq> []"
  shows "lazy_group cl s = Some g \<longleftrightarrow> (\<exists>post. s = g @ cl @ post \<and> first_at cl g)"
proof (induction s arbitrary: g)
  case Nil
  with assms show ?case by (auto simp: first_at_Nil)
next
  case (Cons c cs)
  show ?case
  proof (cases "prefix cl (c # cs)")
    case True
    then obtain post where p: "c # cs = cl @ post" by (auto simp: prefix_def)
    have "g = []" if a: "c # cs = g @ cl @ post'" "first_at cl g" for post'
    proof (cases g)
      case Nil then show ?thesis .
    next
      case (Cons d g')
      with a have "\<not> prefix cl (d # g' @ cl)" by (simp add: first_at_Cons)
      moreover have "prefix cl ((d # g' @ cl) @ post')" using True a(1) Cons by simp
      then have "prefix cl (d # g' @ cl)" by (subst (asm) prefix_append_long) simp_all
      ultimately show ?thesis by simp
    qed
    moreover have "lazy_group cl (c # cs) = Some []" using True by simp
    moreover have "\<exists>post. c # cs = [] @ cl @ post \<and> first_at cl []"
      using p by (simp add: first_at_Nil)
    ultimately show ?thesis by (metis option.inject)
  next
    case False
    have "(\<exists>post. c # cs = g @ cl @ post \<and> first_at cl g) \<longleftrightarrow>
          (\<exists>g' post. g = c # g' \<and> cs = g' @ cl @ post \<and> first_at cl g')"
    proof (cases g)
      case Nil
      with False show ?thesis by (auto simp: prefix_def)
    next
      case (Cons d g')
      have "\<not> prefix cl (c # g' @ cl)" if "cs = g' @ cl @ post" for post
        using False that prefix_append_long [of cl "c # g' @ cl" post] by simp
      with Cons show ?thesis by (auto simp: first_at_Cons)
    qed
    with False Cons.IH show ?thesis by auto
  qed
qed

lemma lazy_group_None:
  assumes "cl \<noteq> []"
  shows "lazy_group cl s = None \<longleftrightarrow> (\<forall>g post. s \<noteq> g @ cl @ post)"
proof (induction s)
  case Nil
  with assms show ?case by auto
next
  case (Cons c cs)
  show ?case
  proof (cases "prefix cl (c # cs)")
    case True
    then show ?thesis by (auto simp: prefix_def) (metis append_Nil)
  next
    case False
    have "(\<forall>g post. c # cs \<noteq> g @ cl @ post) \<longleftrightarrow> (\<forall>g post. cs \<noteq> g @ cl @ post)"
    proof
      assume l: "\<forall>g post. c # cs \<noteq> g @ cl @ post"
      show "\<forall>g post. cs \<noteq> g @ cl @ post"
      proof (intro allI notI)
        fix g post assume "cs = g @ cl @ post"
        then have "c # cs = (c # g) @ cl @ post" by simp
        with l show False by blast
      qed
    next
      assume r: "\<forall>g post. cs \<noteq> g @ cl @ post"
      show "\<forall>g post. c # cs \<noteq> g @ cl @ post"
      proof (intro allI notI)
        fix g post assume e: "c # cs = g @ cl @ post"
        show False
        proof (cases g)
          case Nil with e False show False by (auto simp: prefix_def)
        next
          case (Cons d g') with e r show False by auto
        qed
      qed
    qed
    with False Cons.IH show ?thesis by simp
  qed
qed

lemma fence_open_length: "length fence_open = 8"
  by (simp add: fence_open_def)

lemma fence_close_nonempty: "fence_close \<noteq> []"
  by (simp add: fence_close_def)

lemma match_here_open:
  "match_here (fence_open @ r) = lazy_group fence_close r"
  by (simp add: match_here_def)

lemma match_here_no_prefix:
  "\<not> prefix fence_open s \<Longrightarrow> match_here s = None"
  by (simp add: match_here_def)

lemma re_search_here:
  "match_here s = Some g \<Longrightarrow> re_search s = Some g"
  by (cases s) simp_all

lemma re_search_first:
  assumes "first_at fence_open pre"
  shows "re_search (pre @ fence_open @ r) = re_search (fence_open @ r)"
  using assms
proof (induction pre)
  case Nil
  then show ?case by simp
next
  case (Cons c pre)
  then have np: "\<not> prefix fence_open (c # pre @ fence_open)" and f: "first_at fence_open pre"
    by (simp_all add: first_at_Cons)
  have "\<not> prefix fence_open ((c # pre @ fence_open) @ r)"
    using np by (subst prefix_append_long) simp_all
  then have "match_here (c # pre @ fence_open @ r) = None"
    by (simp add: match_here_no_prefix)
  with Cons.IH [OF f] show ?case by simp
qed

lemma extract_first_block:
  assumes "first_at fence_open pre" and "first_at fence_close inner"
  shows "re_search (pre @ fence_open @ inner @ fence_close @ post) = Some inner"
proof -
  have "lazy_group fence_close (inner @ fence_close @ post) = Some inner"
    using assms(2) lazy_group_Some [OF fence_close_nonempty] by blast
  then have "re_search (fence_open @ inner @ fence_close @ post) = Some inner"
    by (simp add: re_search_here match_here_open)
  with re_search_first [OF assms(1)] show ?thesis by simp
qed

lemma re_search_block_not_None:
  "re_search (pre @ fence_open @ inner @ fence_close @ post) \<noteq> None"
proof (induction pre)
  case Nil
  have "lazy_group fence_close (inner @ fence_close @ post) \<noteq> None"
    using lazy_group_None [OF fence_close_nonempty] by blast
  then obtain g where "match_here (fence_open @ inner @ fence_close @ post) = Some g"
    by (auto simp: match_here_open)
  then show ?case by (simp add: re_search_here)
next
  case (Cons c pre)
  then show ?case by (simp split: option.splits)
qed

lemma match_here_SomeD:
  assumes "match_here s = Some g"
  shows "\<exists>post. s = fence_open @ g @ fence_close @ post \<and> first_at fence_close g"
proof -
  from assms have p: "prefix fence_open s"
    and l: "lazy_group fence_close (drop (length fence_open) s) = Some g"
    by (auto simp: match_here_def split: if_splits)
  from p have "s = fence_open @ drop (length fence_open) s"
    by (auto simp: prefix_def)
  with l lazy_group_Some [OF fence_close_nonempty] show ?thesis by metis
qed

lemma re_search_SomeD:
  "re_search s = Some g \<Longrightarrow>
     \<exists>pre post. s = pre @ fence_open @ g @ fence_close @ post"
proof (induction s)
  case Nil
  then show ?case using match_here_SomeD [of "[]" g] by (metis append_Nil re_search.simps(1))
next
  case (Cons c cs)
  show ?case
  proof (cases "match_here (c # cs)")
    case (Some g')
    with Cons.prems have "g' = g" by simp
    with Some match_here_SomeD [of "c # cs" g] show ?thesis by (metis append_Nil)
  next
    case None
    with Cons.prems have "re_search cs = Some g" by simp
    with Cons.IH obtain pre post where "cs = pre @ fence_open @ g @ fence_close @ post" by blast
    then have "c # cs = (c # pre) @ fence_open @ g @ fence_close @ post" by simp
    then show ?thesis by blast
  qed
qed

lemma re_search_SomeD_first:
  "re_search s = Some g \<Longrightarrow>
     \<exists>pre post. s = pre @ fence_open @ g @ fence_close @ post \<and>
        first_at fence_open pre \<and> first_at fence_close g"
proof (induction s)
  case Nil
  then have "match_here [] = Some g" by simp
  then show ?case by (simp add: match_here_def fence_open_def)
next
  case (Cons c cs)
  show ?case
  proof (cases "match_here (c # cs)")
    case (Some g')
    with Cons.prems have "match_here (c # cs) = Some g" by simp
    from match_here_SomeD [OF this] obtain post where
      "c # cs = [] @ fence_open @ g @ fence_close @ post" "first_at fence_close g" by auto
    then show ?thesis using first_at_Nil by blast
  next
    case None
    with Cons.prems have "re_search cs = Some g" by simp
    with Cons.IH obtain pre post where
      cs: "cs = pre @ fence_open @ g @ fence_close @ post"
      and f: "first_at fence_open pre" "first_at fence_close g" by blast
    have "\<not> prefix fence_open (c # pre @ fence_open)"
    proof
      assume "prefix fence_open (c # pre @ fence_open)"
      then obtain u where u: "c # pre @ fence_open = fence_open @ u" by (auto simp: prefix_def)
      then have "c # cs = fence_open @ (u @ g @ fence_close @ post)" using cs by simp
      then have "match_here (c # cs) = lazy_group fence_close (u @ g @ fence_close @ post)"
        by (simp only: match_here_open)
      with None have "lazy_group fence_close ((u @ g) @ fence_close @ post) = None" by simp
      with lazy_group_None [OF fence_close_nonempty] show False by blast
    qed
    with f(1) have "first_at fence_open (c # pre)" by (simp add: first_at_Cons)
    moreover have "c # cs = (c # pre) @ fence_open @ g @ fence_close @ post" using cs by simp
    ultimately show ?thesis using f(2) by blast
  qed
qed

lemma has_fenced_block_first:
  assumes "has_fenced_block s"
  shows "\<exists>pre inner post. s = pre @ fence_open @ inner @ fence_close @ post \<and>
        first_at fence_open pre \<and> first_at fence_close inner"
proof -
  from assms re_search_block_not_None obtain g where "re_search s = Some g"
    unfolding has_fenced_block_def by fastforce
  from re_search_SomeD_first [OF this] show ?thesis by blast
qed

lemma no_fenced_block_plain: "\<not> has_fenced_block ''{}''"
proof
  assume "has_fenced_block ''{}''"
  then have "re_search ''{}'' \<noteq> None"
    using re_search_block_not_None unfolding has_fenced_block_def by fastforce
  then show False by (simp add: match_here_def fence_open_def)
qed

text \<open>
  C3. A string without a fenced block delimited by the JSON marker is returned unchanged.
  A string with such a block has a first one (the earliest opening fence, closed by the
  earliest closing fence after it), and the extractor returns exactly the inner text of
  that first block, whatever prose or further blocks surround it.
\<close>

theorem extract_json_from_response_fenced:
  "(\<not> has_fenced_block s \<longrightarrow> extract_json_from_response s = s) \<and>
   (has_fenced_block s \<longrightarrow>
      (\<exists>pre inner post. s = pre @ fence_open @ inner @ fence_close @ post \<and>
         first_at fence_open pre \<and> first_at fence_close inner)) \<and>
   (\<forall>pre inner post.
      s = pre @ fence_open @ inner @ fence_close @ post \<and>
      first_at fence_open pre \<and> first_at fence_close inner \<longrightarrow>
      extract_json_from_response s = inner)"
proof (intro conjI impI allI)
  assume n: "\<not> has_fenced_block s"
  have "re_search s = None"
  proof (cases "re_search s")
    case (Some g)
    with re_search_SomeD n show ?thesis unfolding has_fenced_block_def by blast
  qed simp
  then show "extract_json_from_response s = s"
    by (simp add: extract_json_from_response_def)
next
  assume "has_fenced_block s"
  then show "\<exists>pre inner post. s = pre @ fence_open @ inner @ fence_close @ post \<and>
         first_at fence_open pre \<and> first_at fence_close inner"
    by (rule has_fenced_block_first)
next
  fix pre inner post
  assume "s = pre @ fence_open @ inner @ fence_close @ post \<and>
      first_at fence_open pre \<and> first_at fence_close inner"
  then show "extract_json_from_response s = inner"
    by (simp add: extract_json_from_response_def extract_first_block)
qed

theorem extract_json_from_response_fenced_witness:
  "\<not> has_fenced_block ''{}'' \<and>
   extract_json_from_response ''{}'' = ''{}'' \<and>
   first_at fence_open ''Sure: '' \<and> first_at fence_close ''[1]'' \<and>
   extract_json_from_response
     (''Sure: '' @ fence_open @ ''[1]'' @ fence_close @ '' or '' @ fence_open @ ''[2]'' @ fence_close)
     = ''[1]''"
proof -
  have a: "first_at fence_open ''Sure: ''"
    by (simp add: first_at_Cons first_at_Nil fence_open_def)
  have b: "first_at fence_close ''[1]''"
    by (simp add: first_at_Cons first_at_Nil fence_close_def)
  show ?thesis
    using no_fenced_block_plain a b
      extract_json_from_response_fenced [of "''{}''"]
      extract_json_from_response_fenced
        [of "''Sure: '' @ fence_open @ ''[1]'' @ fence_close @ '' or '' @ fence_open @ ''[2]'' @ fence_close"]
    by blast
qed

section \<open>The final sort\<close>













section \<open>The CSV sink\<close>

lemma dict_to_list_ok:
  "csv_row_ok r \<Longrightarrow> dict_to_list csv_fieldnames r = Inr (csv_cells r)"
  by (cases r) (auto simp: csv_cells_def csv_cell_def csv_fieldnames_def split: option.splits)

lemma dict_to_list_bad:
  "\<not> csv_row_ok r \<Longrightarrow> \<exists>e. dict_to_list csv_fieldnames r = Inl e"
  by (cases r) auto






section \<open>The loop, batch by batch\<close>

text \<open>
  What one call of the loop body leaves in the state when it returns normally, then the
  loop over the companies as the processing of the batches of the partition, and what
  follows for the events and the file of a whole run.
\<close>

lemma events_emit [simp]: "events (emit e st) = events st @ [e]"
  and out_file_emit [simp]: "out_file (emit e st) = out_file st"
  and current_batch_emit [simp]: "current_batch (emit e st) = current_batch st"
  and all_results_emit [simp]: "all_results (emit e st) = all_results st"
  and batch_num_emit [simp]: "batch_num (emit e st) = batch_num st"
  by (simp_all add: emit_def)

lemma analyze_batch_fields:
  assumes "analyze_batch c l b k jb mdl st = (st', r)"
  shows "out_file st' = out_file st" "current_batch st' = current_batch st"
    "all_results st' = all_results st" "batch_num st' = batch_num st"
  using assms
  by (auto simp: analyze_batch_def Let_def split: sum.splits list.splits option.splits)

lemma analyze_batch_result:
  "snd (analyze_batch c l b k jb mdl st) = snd (analyze_batch c l b k jb mdl st0)"
  by (auto simp: analyze_batch_def Let_def split: sum.splits list.splits option.splits)

lemma writerows_None:
  "writerows csv_fieldnames rs = (rows, None) \<Longrightarrow> rows = map csv_cells rs"
proof (induction rs arbitrary: rows)
  case Nil
  then show ?case by simp
next
  case (Cons r rs)
  then show ?case
    by (cases "csv_row_ok r")
       (auto simp: dict_to_list_ok split: sum.splits prod.splits dest: dict_to_list_bad)
qed

lemma save_results_ok:
  assumes "save_results rs f st = (st', None)"
  shows "st' = emit (SavedInfo f) (st\<lparr>out_file := Some (file_of f rs)\<rparr>)"
  using assms
  by (cases f) (auto split: prod.splits option.splits dest: writerows_None)

lemma accumulate_ok:
  assumes "accumulate result f st = (st', None)"
  shows "\<exists>x items. getitem result ''analyses'' = Inr x \<and> iterate x = Inr items \<and>
     st' = emit (BatchOkInfo (batch_num st)) (emit (SavedInfo f)
       (st\<lparr>all_results := all_results st @ items,
           out_file := Some (file_of f (all_results st @ items))\<rparr>))"
  using assms
  by (auto simp: accumulate_def Let_def split: sum.splits prod.splits option.splits
      dest!: save_results_ok)

lemma api_calls_append [simp]: "api_calls (es @ fs) = api_calls es @ api_calls fs"
  and processing_append [simp]: "processing (es @ fs) = processing es @ processing fs"
  and batch_errors_append [simp]: "batch_errors (es @ fs) = batch_errors es @ batch_errors fs"
  and pacing_append [simp]: "pacing (es @ fs) = pacing es @ pacing fs"
  by (simp_all add: api_calls_def processing_def batch_errors_def pacing_def)

lemma views_Nil [simp]:
  "api_calls [] = []" "processing [] = []" "batch_errors [] = []" "pacing [] = []"
  by (simp_all add: api_calls_def processing_def batch_errors_def pacing_def)

lemma views_Cons [simp]:
  "api_calls (e # es) = (case e of ApiCall k r \<Rightarrow> [(k, r)] | _ \<Rightarrow> []) @ api_calls es"
  "processing (e # es) = (case e of ProcessingInfo k m \<Rightarrow> [(k, m)] | _ \<Rightarrow> []) @ processing es"
  "batch_errors (e # es) = (case e of BatchError k x \<Rightarrow> [(k, x)] | _ \<Rightarrow> []) @ batch_errors es"
  "pacing (e # es) =
     (case e of ProcessingInfo k m \<Rightarrow> [e] | CostInfo c \<Rightarrow> [e] | Sleep s \<Rightarrow> [e] | _ \<Rightarrow> [])
     @ pacing es"
  by (simp_all add: api_calls_def processing_def batch_errors_def pacing_def split: event.splits)

lemma analyze_batch_InrE:
  assumes "analyze_batch c l b k jb mdl st = (st2, Inr result)"
  obtains ps where "render_companies b = Inr ps"
    and "events st2 = events st @ [ApiCall k \<lparr>req_model = mdl, req_job = jb, req_companies = ps\<rparr>]
         \<or> (\<exists>e. events st2 = events st @
               [ApiCall k \<lparr>req_model = mdl, req_job = jb, req_companies = ps\<rparr>, BatchError k e]
             \<and> result = JNull)"
  using assms
  by (auto simp: analyze_batch_def Let_def split: sum.splits list.splits option.splits)

lemma process_batch_NoneE:
  assumes "process_batch c l a n i st = (st', None)"
  obtains st2 result st3 where
    "analyze_batch c l (current_batch st) (batch_num st) (job a) (model a)
        (emit (ProcessingInfo (batch_num st) (length (current_batch st))) st) = (st2, Inr result)"
    and "if truthy result then accumulate result (output_format a) st2 = (st3, None) else st3 = st2"
    and "st' = (if int i < int n - 1
           then emit (Sleep 2) (emit (CostInfo (of_int (int i + 1) / of_int (batch_size a) * (1 / 100)))
                  (st3\<lparr>current_batch := [], batch_num := batch_num st3 + 1\<rparr>))
           else st3\<lparr>current_batch := [], batch_num := batch_num st3 + 1\<rparr>)"
    and "int i < int n - 1 \<longrightarrow> batch_size a \<noteq> 0"
proof -
  let ?st1 = "emit (ProcessingInfo (batch_num st) (length (current_batch st))) st"
  obtain st2 r where ab: "analyze_batch c l (current_batch st) (batch_num st) (job a) (model a) ?st1 = (st2, r)"
    by (cases "analyze_batch c l (current_batch st) (batch_num st) (job a) (model a) ?st1")
  with assms obtain result where r: "r = Inr result"
    by (cases r) (auto simp: process_batch_def Let_def)
  obtain st3 x where acc: "(if truthy result then accumulate result (output_format a) st2
                    else (st2, None)) = (st3, x)"
    by (cases "if truthy result then accumulate result (output_format a) st2 else (st2, None)")
  with assms ab r have x: "x = None"
    by (cases x) (auto simp: process_batch_def Let_def)
  from assms ab r acc x have fin:
    "(if int i < int n - 1
      then rate_limit_handler (batch_size a) (int i + 1) (st3\<lparr>current_batch := [], batch_num := batch_num st3 + 1\<rparr>)
      else (st3\<lparr>current_batch := [], batch_num := batch_num st3 + 1\<rparr>, None)) = (st', None)"
    by (auto simp: process_batch_def Let_def split: if_splits)
  show ?thesis
  proof (rule that [of st2 result st3])
    show "analyze_batch c l (current_batch st) (batch_num st) (job a) (model a) ?st1 = (st2, Inr result)"
      using ab r by simp
    show "if truthy result then accumulate result (output_format a) st2 = (st3, None) else st3 = st2"
      using acc x by (auto split: if_splits)
    show "int i < int n - 1 \<longrightarrow> batch_size a \<noteq> 0"
      using fin by (auto simp: rate_limit_handler_def split: if_splits)
    show "st' = (if int i < int n - 1
           then emit (Sleep 2) (emit (CostInfo (of_int (int i + 1) / of_int (batch_size a) * (1 / 100)))
                  (st3\<lparr>current_batch := [], batch_num := batch_num st3 + 1\<rparr>))
           else st3\<lparr>current_batch := [], batch_num := batch_num st3 + 1\<rparr>)"
      using fin by (auto simp: rate_limit_handler_def split: if_splits)
  qed
qed

lemma process_batch_ok:
  assumes "process_batch c l a n i st = (st', None)"
  shows "batch_num st' = batch_num st + 1"
    and "current_batch st' = []"
    and "\<exists>ps. render_companies (current_batch st) = Inr ps \<and>
           api_calls (events st') = api_calls (events st) @
             [(batch_num st, \<lparr>req_model = model a, req_job = job a, req_companies = ps\<rparr>)]"
    and "processing (events st') =
           processing (events st) @ [(batch_num st, length (current_batch st))]"
    and "pacing (events st') =
           pacing (events st) @ ProcessingInfo (batch_num st) (length (current_batch st)) #
             (if int i < int n - 1
              then [CostInfo (of_int (int i + 1) / of_int (batch_size a) * (1 / 100)), Sleep 2]
              else [])"
    and "case batch_items c l a (batch_num st) (current_batch st) of
           Some items \<Rightarrow> all_results st' = all_results st @ items \<and>
             out_file st' = Some (file_of (output_format a) (all_results st'))
         | None \<Rightarrow> all_results st' = all_results st \<and> out_file st' = out_file st"
proof -
  let ?k = "batch_num st" and ?b = "current_batch st"
  let ?st1 = "emit (ProcessingInfo ?k (length ?b)) st"
  from process_batch_NoneE [OF assms] obtain st2 result st3 where
    ab: "analyze_batch c l ?b ?k (job a) (model a) ?st1 = (st2, Inr result)"
    and acc: "if truthy result then accumulate result (output_format a) st2 = (st3, None) else st3 = st2"
    and st': "st' = (if int i < int n - 1
           then emit (Sleep 2) (emit (CostInfo (of_int (int i + 1) / of_int (batch_size a) * (1 / 100)))
                  (st3\<lparr>current_batch := [], batch_num := batch_num st3 + 1\<rparr>))
           else st3\<lparr>current_batch := [], batch_num := batch_num st3 + 1\<rparr>)"
    by blast
  note f2 = analyze_batch_fields [OF ab]
  from analyze_batch_InrE [OF ab] obtain ps where
    ps: "render_companies ?b = Inr ps"
    and ev2: "events st2 = events ?st1 @ [ApiCall ?k \<lparr>req_model = model a, req_job = job a, req_companies = ps\<rparr>]
         \<or> (\<exists>e. events st2 = events ?st1 @
               [ApiCall ?k \<lparr>req_model = model a, req_job = job a, req_companies = ps\<rparr>, BatchError ?k e]
             \<and> result = JNull)"
    by blast
  have res: "batch_result c l a ?k ?b = Inr result"
    using ab analyze_batch_result [of c l ?b ?k "job a" "model a" "init_state []" ?st1]
    by (simp add: batch_result_def)
  have st3: "batch_num st3 = ?k"
    "\<exists>es. events st3 = events st2 @ es \<and> api_calls es = [] \<and> processing es = [] \<and> pacing es = []"
    "case batch_items c l a ?k ?b of
       Some items \<Rightarrow> all_results st3 = all_results st @ items \<and>
         out_file st3 = Some (file_of (output_format a) (all_results st3))
     | None \<Rightarrow> all_results st3 = all_results st \<and> out_file st3 = out_file st"
  proof -
    show "batch_num st3 = ?k"
      using acc f2 by (auto split: if_splits dest!: accumulate_ok)
    show "\<exists>es. events st3 = events st2 @ es \<and> api_calls es = [] \<and> processing es = [] \<and> pacing es = []"
    proof (cases "truthy result")
      case True
      with acc have "events st3 = events st2 @ [SavedInfo (output_format a), BatchOkInfo (batch_num st2)]"
        by (auto dest!: accumulate_ok)
      then show ?thesis by simp
    next
      case False
      with acc show ?thesis by simp
    qed
    show "case batch_items c l a ?k ?b of
       Some items \<Rightarrow> all_results st3 = all_results st @ items \<and>
         out_file st3 = Some (file_of (output_format a) (all_results st3))
     | None \<Rightarrow> all_results st3 = all_results st \<and> out_file st3 = out_file st"
    proof (cases "truthy result")
      case True
      with acc obtain x items where "getitem result ''analyses'' = Inr x" "iterate x = Inr items"
        "st3 = emit (BatchOkInfo (batch_num st2)) (emit (SavedInfo (output_format a))
           (st2\<lparr>all_results := all_results st2 @ items,
               out_file := Some (file_of (output_format a) (all_results st2 @ items))\<rparr>))"
        by (auto dest!: accumulate_ok)
      with True res f2 show ?thesis by (simp add: batch_items_def)
    next
      case False
      with acc res f2 show ?thesis by (simp add: batch_items_def)
    qed
  qed
  from st3(2) obtain es where es: "events st3 = events st2 @ es"
    "api_calls es = []" "processing es = []" "pacing es = []" by blast
  show "batch_num st' = batch_num st + 1" using st' st3(1) by simp
  show "current_batch st' = []" using st' by simp
  show "\<exists>ps. render_companies ?b = Inr ps \<and>
           api_calls (events st') = api_calls (events st) @
             [(?k, \<lparr>req_model = model a, req_job = job a, req_companies = ps\<rparr>)]"
    using ps ev2 es st' by auto
  show "processing (events st') = processing (events st) @ [(?k, length ?b)]"
    using ev2 es st' by auto
  show "pacing (events st') =
           pacing (events st) @ ProcessingInfo ?k (length ?b) #
             (if int i < int n - 1
              then [CostInfo (of_int (int i + 1) / of_int (batch_size a) * (1 / 100)), Sleep 2]
              else [])"
    using ev2 es st' by auto
  show "case batch_items c l a ?k ?b of
           Some items \<Rightarrow> all_results st' = all_results st @ items \<and>
             out_file st' = Some (file_of (output_format a) (all_results st'))
         | None \<Rightarrow> all_results st' = all_results st \<and> out_file st' = out_file st"
    using st3(3) st' by (auto split: option.splits)
qed

lemma loop_fill:
  assumes "b \<noteq> []"
    and "\<forall>j < length b - 1.
           int (length (current_batch st) + j + 1) \<noteq> batch_size a \<and> int (i + j) \<noteq> int n - 1"
    and "int (length (current_batch st) + length b) = batch_size a \<or>
         int (i + length b - 1) = int n - 1"
  shows "companies_loop c l a n i (b @ rest) st =
     (case process_batch c l a n (i + length b - 1)
             (st\<lparr>current_batch := current_batch st @ b\<rparr>) of
        (st', Some e) \<Rightarrow> (st', Some e)
      | (st', None) \<Rightarrow> companies_loop c l a n (i + length b) rest st')"
  using assms
proof (induction b arbitrary: st i rule: list_nonempty_induct)
  case (single x)
  then show ?case by (simp add: Let_def)
next
  case (cons x b)
  let ?st1 = "st\<lparr>current_batch := current_batch st @ [x]\<rparr>"
  from cons.hyps have len: "0 < length b" by simp
  from cons.prems(1) len have no: "int (length (current_batch st) + 1) \<noteq> batch_size a"
    "int i \<noteq> int n - 1"
    by (auto dest: spec [of _ 0])
  have p1: "\<forall>j < length b - 1.
           int (length (current_batch ?st1) + j + 1) \<noteq> batch_size a \<and> int (Suc i + j) \<noteq> int n - 1"
  proof (intro allI impI)
    fix j assume "j < length b - 1"
    then have "Suc j < length (x # b) - 1" by simp
    with cons.prems(1) have "int (length (current_batch st) + Suc j + 1) \<noteq> batch_size a \<and>
        int (i + Suc j) \<noteq> int n - 1" by blast
    then show "int (length (current_batch ?st1) + j + 1) \<noteq> batch_size a \<and>
        int (Suc i + j) \<noteq> int n - 1" by simp
  qed
  have p2: "int (length (current_batch ?st1) + length b) = batch_size a \<or>
         int (Suc i + length b - 1) = int n - 1"
    using cons.prems(2) len by auto
  have "companies_loop c l a n i ((x # b) @ rest) st = companies_loop c l a n (Suc i) (b @ rest) ?st1"
    using no by (simp add: Let_def)
  also have "\<dots> = (case process_batch c l a n (Suc i + length b - 1)
             (?st1\<lparr>current_batch := current_batch ?st1 @ b\<rparr>) of
        (st', Some e) \<Rightarrow> (st', Some e)
      | (st', None) \<Rightarrow> companies_loop c l a n (Suc i + length b) rest st')"
    by (rule cons.IH [OF p1 p2])
  finally show ?case using len
    by (simp del: companies_loop.simps split: prod.splits option.splits)
qed

lemma batches_of_simps_if:
  "batches_of B [] = []"
  "xs \<noteq> [] \<Longrightarrow> B \<le> 0 \<or> int (length xs) \<le> B \<Longrightarrow> batches_of B xs = [xs]"
  "xs \<noteq> [] \<Longrightarrow> 0 < B \<Longrightarrow> B < int (length xs) \<Longrightarrow>
     batches_of B xs = take (nat B) xs # batches_of B (drop (nat B) xs)"
  by (subst batches_of.simps; simp)+

declare batches_of.simps [simp del]

lemma concat_batches_of: "concat (batches_of B xs) = xs"
  by (induction B xs rule: batches_of.induct) (subst batches_of.simps, simp)

lemma batches_of_nonempty: "b \<in> set (batches_of B xs) \<Longrightarrow> b \<noteq> []"
proof (induction B xs rule: batches_of.induct)
  case (1 B xs)
  consider "xs = []" | "xs \<noteq> []" "B \<le> 0 \<or> int (length xs) \<le> B"
    | "xs \<noteq> []" "0 < B" "B < int (length xs)" by linarith
  then show ?case
  proof cases
    case 1
    with "1.prems" show ?thesis by (simp add: batches_of_simps_if)
  next
    case 2
    with "1.prems" show ?thesis by (simp add: batches_of_simps_if)
  next
    case 3
    with "1.prems" "1.IH" show ?thesis by (auto simp: batches_of_simps_if)
  qed
qed

lemma loop_run_batches:
  assumes "current_batch st = []" and "i + length xs = n"
  shows "companies_loop c l a n i (concat (take k (batches_of (batch_size a) xs))) st =
         run_batches c l a n i (take k (batches_of (batch_size a) xs)) st"
  using assms
proof (induction "batch_size a" xs arbitrary: st i k rule: batches_of.induct)
  case (1 xs)
  let ?B = "batch_size a"
  show ?case
  proof (cases k)
    case 0
    then show ?thesis by simp
  next
    case (Suc k')
    consider "xs = []" | "xs \<noteq> []" "?B \<le> 0 \<or> int (length xs) \<le> ?B"
      | "xs \<noteq> []" "0 < ?B" "?B < int (length xs)" by linarith
    then show ?thesis
    proof cases
      case 1
      then show ?thesis by (simp add: batches_of_simps_if)
    next
      case 2
      have "companies_loop c l a n i (xs @ []) st =
        (case process_batch c l a n (i + length xs - 1) (st\<lparr>current_batch := current_batch st @ xs\<rparr>) of
           (st', Some e) \<Rightarrow> (st', Some e)
         | (st', None) \<Rightarrow> companies_loop c l a n (i + length xs) [] st')"
      proof (rule loop_fill)
        show "xs \<noteq> []" by fact
        show "\<forall>j < length xs - 1.
           int (length (current_batch st) + j + 1) \<noteq> ?B \<and> int (i + j) \<noteq> int n - 1"
          using 2 1(2,3) by auto
        show "int (length (current_batch st) + length xs) = ?B \<or>
         int (i + length xs - 1) = int n - 1"
          using 2 1(3) by (cases xs) auto
      qed
      with 2 Suc 1(2) show ?thesis
        by (simp add: batches_of_simps_if split: prod.splits option.splits)
    next
      case 3
      let ?b = "take (nat ?B) xs" and ?r = "drop (nat ?B) xs"
      have lb: "length ?b = nat ?B" using 3 by simp
      have bs: "batches_of ?B xs = ?b # batches_of ?B ?r"
        using 3 by (simp add: batches_of_simps_if)
      have fill: "companies_loop c l a n i (?b @ concat (take k' (batches_of ?B ?r))) st =
        (case process_batch c l a n (i + length ?b - 1) (st\<lparr>current_batch := current_batch st @ ?b\<rparr>) of
           (st', Some e) \<Rightarrow> (st', Some e)
         | (st', None) \<Rightarrow> companies_loop c l a n (i + length ?b) (concat (take k' (batches_of ?B ?r))) st')"
      proof (rule loop_fill)
        show "?b \<noteq> []" using 3 by auto
        show "\<forall>j < length ?b - 1.
           int (length (current_batch st) + j + 1) \<noteq> ?B \<and> int (i + j) \<noteq> int n - 1"
          using 3 1(2,3) lb by auto
        show "int (length (current_batch st) + length ?b) = ?B \<or>
         int (i + length ?b - 1) = int n - 1"
          using 3 1(2) lb by auto
      qed
      have ih: "companies_loop c l a n (i + length ?b) (concat (take k' (batches_of ?B ?r))) st' =
          run_batches c l a n (i + length ?b) (take k' (batches_of ?B ?r)) st'"
        if "process_batch c l a n (i + length ?b - 1) (st\<lparr>current_batch := ?b\<rparr>) = (st', None)" for st'
      proof (rule 1(1))
        show "xs \<noteq> []" by fact
        show "\<not> (?B \<le> 0 \<or> int (length xs) \<le> ?B)" using 3 by simp
        show "current_batch st' = []" using process_batch_ok(2) [OF that] .
        show "i + length ?b + length ?r = n" using 1(3) 3 by simp
      qed
      show ?thesis
        using fill ih 1(2) Suc bs
        by (auto split: prod.splits option.splits)
    qed
  qed
qed

lemma run_batches_ok:
  assumes "run_batches c l a n i bs st = (st', None)"
    and "\<forall>b \<in> set bs. b \<noteq> []" and "i + length (concat bs) = n"
  shows "batch_num st' = batch_num st + length bs"
    and "processing (events st') =
           processing (events st) @ enumerate (batch_num st) (map length bs)"
    and "\<forall>b \<in> set bs. render_companies b = Inr (render_ps b)"
    and "api_calls (events st') = api_calls (events st) @
           enumerate (batch_num st)
             (map (\<lambda>b. \<lparr>req_model = model a, req_job = job a, req_companies = render_ps b\<rparr>) bs)"
    and "pacing (events st') = pacing (events st) @ pace_events (batch_size a) (batch_num st) i bs"
    and "all_results st' = all_results st @
           accumulated c l a (enumerate (batch_num st) bs)"
    and "bs \<noteq> [] \<and> batch_items c l a (batch_num st + length bs - 1) (last bs) \<noteq> None \<longrightarrow>
           out_file st' = Some (file_of (output_format a) (all_results st'))"
  using assms
proof (induction bs arbitrary: st i)
  case Nil
  {
    case 1 then show ?case by simp
  next
    case 2 then show ?case by simp
  next
    case 3 then show ?case by simp
  next
    case 4 then show ?case by simp
  next
    case 5 then show ?case by simp
  next
    case 6 then show ?case by (simp add: accumulated_def)
  next
    case 7 then show ?case by simp
  }
next
  case (Cons b bs)
  {
    fix st i
    assume run: "run_batches c l a n i (b # bs) st = (st', None)"
      and ne: "\<forall>x \<in> set (b # bs). x \<noteq> []" and len: "i + length (concat (b # bs)) = n"
    let ?s = "st\<lparr>current_batch := b\<rparr>"
    from run obtain st1 where
      pb: "process_batch c l a n (i + length b - 1) ?s = (st1, None)"
      and rest: "run_batches c l a n (i + length b) bs st1 = (st', None)"
      by (auto split: prod.splits option.splits)
    note p = process_batch_ok [OF pb]
    from ne have ne': "\<forall>x \<in> set bs. x \<noteq> []" and bne: "b \<noteq> []" by simp_all
    from len have len': "i + length b + length (concat bs) = n" by simp
    note ih = Cons.IH [OF rest ne' len']
    have k1: "batch_num st1 = Suc (batch_num st)" using p(1) by simp
    have lastp: "int (i + length b - 1) < int n - 1 \<longleftrightarrow> bs \<noteq> []"
    proof (cases bs)
      case Nil
      with len bne show ?thesis by simp
    next
      case (Cons b' bs')
      with ne have "b' \<noteq> []" by simp
      then have "0 < length b'" by simp
      then have "0 < length (concat bs)" using Cons by simp
      moreover have "0 < length b" using bne by simp
      ultimately have "int (i + length b - 1) < int n - 1" using len' by linarith
      with Cons show ?thesis by simp
    qed
    have tot: "int (i + length b - 1) + 1 = int (i + length b)"
      using bne by (cases b) auto
    have r1: "batch_num st' = batch_num st + length (b # bs)"
      using ih(1) k1 by simp
    have r2: "processing (events st') = processing (events st) @
        enumerate (batch_num st) (map length (b # bs))"
      using ih(2) p(4) k1 by simp
    from p(3) obtain ps where ps: "render_companies b = Inr ps"
      and api1: "api_calls (events st1) = api_calls (events ?s) @
             [(batch_num st, \<lparr>req_model = model a, req_job = job a, req_companies = ps\<rparr>)]"
      by auto
    from ps have rps: "render_ps b = ps" by (simp add: render_ps_def)
    have r3: "\<forall>x \<in> set (b # bs). render_companies x = Inr (render_ps x)"
      using ih(3) ps rps by simp
    have r4: "api_calls (events st') = api_calls (events st) @
           enumerate (batch_num st)
             (map (\<lambda>b. \<lparr>req_model = model a, req_job = job a, req_companies = render_ps b\<rparr>) (b # bs))"
      using ih(4) api1 rps k1 by simp
    have r5: "pacing (events st') = pacing (events st) @ pace_events (batch_size a) (batch_num st) i (b # bs)"
    proof (cases bs)
      case Nil
      with rest have "st' = st1" by simp
      with p(5) lastp Nil show ?thesis by simp
    next
      case (Cons b' bs')
      with ih(5) p(5) lastp k1 tot show ?thesis by simp
    qed
    have r6: "all_results st' = all_results st @
           accumulated c l a (enumerate (batch_num st) (b # bs))"
      using ih(6) p(6) k1
      by (simp add: accumulated_def split: option.splits)
    have r7: "b # bs \<noteq> [] \<and> batch_items c l a (batch_num st + length (b # bs) - 1) (last (b # bs)) \<noteq> None \<longrightarrow>
           out_file st' = Some (file_of (output_format a) (all_results st'))"
    proof (cases bs)
      case Nil
      with rest have "st' = st1" by simp
      with p(6) Nil show ?thesis by (auto split: option.splits)
    next
      case (Cons b' bs')
      with ih(7) k1 show ?thesis by simp
    qed
    note r1 r2 r3 r4 r5 r6 r7
  } note step = this
  {
    case 1 from step(1) [OF 1] show ?case .
  next
    case 2 from step(2) [OF 2] show ?case .
  next
    case 3 from step(3) [OF 3] show ?case .
  next
    case 4 from step(4) [OF 4] show ?case .
  next
    case 5 from step(5) [OF 5] show ?case .
  next
    case 6 from step(6) [OF 6] show ?case .
  next
    case 7 from step(7) [OF 7] show ?case .
  }
qed

lemma log_top_views:
  assumes "log_top rs st = (st', x)"
  shows "out_file st' = out_file st"
    and "api_calls (events st') = api_calls (events st)"
    and "processing (events st') = processing (events st)"
    and "pacing (events st') = pacing (events st)"
    and "batch_errors (events st') = batch_errors (events st)"
  using assms
  by (induction rs arbitrary: st; auto simp: Let_def split: sum.splits)+

lemma main_ok:
  assumes "main c l a companies = (st, None)"
  obtains st1 ys where
    "companies_loop c l a (length companies) 0 companies (init_state companies) = (st1, None)"
    and "sorted_by_score (all_results st1) = Inr ys"
    and "out_file st = Some (file_of (output_format a) ys)"
    and "api_calls (events st) = api_calls (events st1)"
    and "processing (events st) = processing (events st1)"
    and "pacing (events st) = pacing (events st1)"
    and "batch_errors (events st) = batch_errors (events st1)"
proof -
  from assms have mt: "main_try c l a companies = (st, None)"
    by (auto simp: main_def split: prod.splits option.splits)
  then obtain st1 where
    lp: "companies_loop c l a (length companies) 0 companies (init_state companies) = (st1, None)"
    by (auto simp: main_try_def split: prod.splits option.splits)
  with mt obtain ys where ys: "sorted_by_score (all_results st1) = Inr ys"
    by (auto simp: main_try_def split: sum.splits)
  with mt lp obtain st2 where sv: "save_results ys (output_format a) st1 = (st2, None)"
    and lt: "log_top (take 10 ys) (emit TopHeaderInfo st2) = (st, None)"
    by (auto simp: main_try_def split: prod.splits option.splits)
  from save_results_ok [OF sv] have st2:
    "st2 = emit (SavedInfo (output_format a)) (st1\<lparr>out_file := Some (file_of (output_format a) ys)\<rparr>)" .
  note v = log_top_views [OF lt]
  show ?thesis
  proof (rule that [OF lp ys])
    show "out_file st = Some (file_of (output_format a) ys)" using v(1) st2 by simp
    show "api_calls (events st) = api_calls (events st1)" using v(2) st2 by simp
    show "processing (events st) = processing (events st1)" using v(3) st2 by simp
    show "pacing (events st) = pacing (events st1)" using v(4) st2 by simp
    show "batch_errors (events st) = batch_errors (events st1)" using v(5) st2 by simp
  qed
qed

lemma loop_batches:
  "companies_loop c l a (length companies) 0 companies (init_state companies) =
     run_batches c l a (length companies) 0 (batches_of (batch_size a) companies) (init_state companies)"
  using loop_run_batches [of "init_state companies" 0 companies "length companies" c l a
      "length (batches_of (batch_size a) companies)"]
  by (simp add: concat_batches_of init_state_def)

lemma ceil_div_one: "0 < m \<Longrightarrow> m \<le> b \<Longrightarrow> (m + b - 1) div b = (1::nat)"
  by (intro div_nat_eqI) simp_all

lemma ceil_div_step:
  assumes "0 < b" and "b < m"
  shows "(m + b - 1) div b = Suc ((m - b + b - 1) div (b::nat))"
proof -
  have e1: "m + b - 1 = (m - 1) + b" using assms by linarith
  have e2: "m - b + b - 1 = m - 1" using assms by linarith
  have "((m - 1) + b) div b = Suc ((m - 1) div b)" using assms(1) by simp
  then show ?thesis by (simp only: e1 e2)
qed

lemma length_batches_of:
  "0 < B \<Longrightarrow> length (batches_of B xs) = (length xs + nat B - 1) div nat B"
proof (induction B xs rule: batches_of.induct)
  case (1 B xs)
  consider "xs = []" | "xs \<noteq> []" "int (length xs) \<le> B"
    | "xs \<noteq> []" "B < int (length xs)" by linarith
  then show ?case
  proof cases
    case 1
    with "1.prems" show ?thesis by (simp add: batches_of_simps_if)
  next
    case 2
    then have "0 < length xs" "length xs \<le> nat B" by auto
    then have "(length xs + nat B - 1) div nat B = 1"
      by (rule ceil_div_one)
    with 2 show ?thesis by (simp add: batches_of_simps_if)
  next
    case 3
    with "1.prems" have ih: "length (batches_of B (drop (nat B) xs))
        = (length (drop (nat B) xs) + nat B - 1) div nat B"
      by (intro "1.IH") auto
    from 3 "1.prems" have lt: "nat B < length xs" "0 < nat B" by auto
    from ceil_div_step [OF lt(2) lt(1)]
    have "(length xs + nat B - 1) div nat B = Suc ((length xs - nat B + nat B - 1) div nat B)" .
    with 3 "1.prems" ih show ?thesis by (simp add: batches_of_simps_if)
  qed
qed

lemma batches_of_Nil_iff: "batches_of B xs = [] \<longleftrightarrow> xs = []"
  by (subst batches_of.simps) simp

lemma size_batches_of:
  "0 < B \<Longrightarrow> j < length (batches_of B xs) \<Longrightarrow>
     length (batches_of B xs ! j) =
       (if Suc j < length (batches_of B xs) then nat B
        else if length xs mod nat B = 0 then nat B else length xs mod nat B)"
proof (induction B xs arbitrary: j rule: batches_of.induct)
  case (1 B xs)
  consider "xs = []" | "xs \<noteq> []" "int (length xs) \<le> B"
    | "xs \<noteq> []" "B < int (length xs)" by linarith
  then show ?case
  proof cases
    case 1
    with "1.prems" show ?thesis by (simp add: batches_of_simps_if)
  next
    case 2
    then have bs: "batches_of B xs = [xs]" by (simp add: batches_of_simps_if)
    from 2 have "0 < length xs" "length xs \<le> nat B" by auto
    then have "length xs = (if length xs mod nat B = 0 then nat B else length xs mod nat B)"
      by (cases "length xs = nat B") auto
    with bs "1.prems" show ?thesis by simp
  next
    case 3
    let ?r = "drop (nat B) xs"
    from "1.prems" have pos: "0 < B" by simp
    from 3 pos have bs: "batches_of B xs = take (nat B) xs # batches_of B ?r"
      by (simp add: batches_of_simps_if)
    from 3 pos have rne: "batches_of B ?r \<noteq> []" by (simp add: batches_of_Nil_iff)
    from 3 pos have lt: "nat B \<le> length xs" by linarith
    have m: "length ?r mod nat B = length xs mod nat B"
      using lt by (simp add: le_mod_geq)
    show ?thesis
    proof (cases j)
      case 0
      with bs rne lt show ?thesis by simp
    next
      case (Suc j')
      with "1.prems" bs have j': "j' < length (batches_of B ?r)" by simp
      have "length (batches_of B ?r ! j') =
         (if Suc j' < length (batches_of B ?r) then nat B
          else if length ?r mod nat B = 0 then nat B else length ?r mod nat B)"
        using 3 pos j' by (intro "1.IH") auto
      with Suc bs m show ?thesis by simp
    qed
  qed
qed

lemma map_snd_enumerate_fun:
  "map (\<lambda>kr. h (snd kr)) (enumerate k xs) = map h xs"
  by (induction xs arbitrary: k) simp_all

lemma render_companies_append:
  "render_companies xs = Inr p \<Longrightarrow> render_companies ys = Inr q \<Longrightarrow>
     render_companies (xs @ ys) = Inr (p @ q)"
  by (induction xs arbitrary: p) (auto split: sum.splits)

lemma render_companies_concat:
  "\<forall>b \<in> set bs. render_companies b = Inr (render_ps b) \<Longrightarrow>
     render_companies (concat bs) = Inr (concat (map render_ps bs))"
  by (induction bs) (simp_all add: render_companies_append)

lemma length_render_ps:
  "render_companies b = Inr ps \<Longrightarrow> length ps = length b"
  by (induction b arbitrary: ps) (auto split: sum.splits)

lemma main_ok_batches:
  assumes "main c l a companies = (st, None)"
  defines "bs \<equiv> batches_of (batch_size a) companies"
  shows "processing (events st) = enumerate 1 (map length bs)"
    and "api_batches (events st) = map render_ps bs"
    and "\<forall>b \<in> set bs. render_companies b = Inr (render_ps b)"
    and "pacing (events st) = pace_events (batch_size a) 1 0 bs"
proof -
  from main_ok [OF assms(1)] obtain st1 where
    lp: "companies_loop c l a (length companies) 0 companies (init_state companies) = (st1, None)"
    and v: "api_calls (events st) = api_calls (events st1)"
      "processing (events st) = processing (events st1)"
      "pacing (events st) = pacing (events st1)"
    by metis
  from lp have rb: "run_batches c l a (length companies) 0 bs (init_state companies) = (st1, None)"
    by (simp add: loop_batches bs_def)
  have ne: "\<forall>b \<in> set bs. b \<noteq> []" unfolding bs_def using batches_of_nonempty by blast
  have len: "0 + length (concat bs) = length companies"
    by (simp add: bs_def concat_batches_of)
  note r = run_batches_ok [OF rb ne len]
  show "processing (events st) = enumerate 1 (map length bs)"
    using r(2) v(2) by (simp add: init_state_def)
  show "api_batches (events st) = map render_ps bs"
    using r(4) v(1)
    by (simp add: init_state_def api_batches_def map_snd_enumerate_fun comp_def)
  show "\<forall>b \<in> set bs. render_companies b = Inr (render_ps b)" by (rule r(3))
  show "pacing (events st) = pace_events (batch_size a) 1 0 bs"
    using r(5) v(3) by (simp add: init_state_def)
qed





lemma render_entities:
  "\<forall>c \<in> set b. is_entity c \<Longrightarrow> \<exists>ps. render_companies b = Inr ps"
proof (induction b)
  case Nil
  then show ?case by simp
next
  case (Cons c b)
  then obtain ps where "render_companies b = Inr ps" by auto
  moreover from Cons.prems have "is_entity c" by simp
  then obtain v w where "getitem c ''company'' = Inr v" "getitem c ''about'' = Inr w"
    by (cases c) auto
  ultimately show ?case by simp
qed

lemma process_batch_client_fails:
  assumes "render_companies (current_batch st) = Inr ps"
    and "c (batch_num st) \<lparr>req_model = model a, req_job = job a, req_companies = ps\<rparr> = Inl e"
    and "int i < int n - 1 \<longrightarrow> batch_size a \<noteq> 0"
  shows "process_batch c l a n i st =
     (advance a n i
        [ProcessingInfo (batch_num st) (length (current_batch st)),
         ApiCall (batch_num st) \<lparr>req_model = model a, req_job = job a, req_companies = ps\<rparr>,
         BatchError (batch_num st) e] st, None)"
  using assms
  by (simp add: process_batch_def analyze_batch_def Let_def rate_limit_handler_def
      advance_def emit_def)

lemma process_batch_falsy:
  assumes "render_companies (current_batch st) = Inr ps"
    and "c (batch_num st) \<lparr>req_model = model a, req_job = job a, req_companies = ps\<rparr>
           = Inr (Some reply # others)"
    and "l (extract_json_from_response reply) = Inr v" and "\<not> truthy v"
    and "int i < int n - 1 \<longrightarrow> batch_size a \<noteq> 0"
  shows "process_batch c l a n i st =
     (advance a n i
        [ProcessingInfo (batch_num st) (length (current_batch st)),
         ApiCall (batch_num st) \<lparr>req_model = model a, req_job = job a, req_companies = ps\<rparr>] st,
      None)"
  using assms
  by (simp add: process_batch_def analyze_batch_def Let_def rate_limit_handler_def
      advance_def emit_def)

lemma advance_fields [simp]:
  "all_results (advance a n i es st) = all_results st"
  "out_file (advance a n i es st) = out_file st"
  "current_batch (advance a n i es st) = []"
  "batch_num (advance a n i es st) = Suc (batch_num st)"
  "batch_errors (events (advance a n i es st)) = batch_errors (events st) @ batch_errors es"
  by (simp_all add: advance_def)

lemma run_batches_client_fails:
  assumes "\<forall>k r. \<exists>e. c k r = Inl e"
    and "\<forall>b \<in> set bs. b \<noteq> [] \<and> (\<forall>x \<in> set b. is_entity x)"
    and "i + length (concat bs) = n"
    and "batch_size a = 0 \<longrightarrow> length bs \<le> 1"
  shows "\<exists>st'. run_batches c l a n i bs st = (st', None) \<and>
           all_results st' = all_results st \<and> out_file st' = out_file st \<and>
           map fst (batch_errors (events st')) =
             map fst (batch_errors (events st)) @ map fst (enumerate (batch_num st) bs)"
  using assms(2-)
proof (induction bs arbitrary: st i)
  case Nil
  then show ?case by simp
next
  case (Cons b bs)
  let ?s = "st\<lparr>current_batch := b\<rparr>"
  from Cons.prems(1) have bne: "b \<noteq> []" and ent: "\<forall>x \<in> set b. is_entity x" by simp_all
  from render_entities [OF ent] obtain ps where ps: "render_companies (current_batch ?s) = Inr ps"
    by auto
  from assms(1) obtain e where
    e: "c (batch_num ?s) \<lparr>req_model = model a, req_job = job a, req_companies = ps\<rparr> = Inl e"
    by auto
  have nz: "int (i + length b - 1) < int n - 1 \<longrightarrow> batch_size a \<noteq> 0"
  proof
    assume "int (i + length b - 1) < int n - 1"
    with Cons.prems(2) bne have "bs \<noteq> []" by (cases b) auto
    with Cons.prems(3) show "batch_size a \<noteq> 0" by (cases bs) auto
  qed
  let ?s1 = "advance a n (i + length b - 1)
        [ProcessingInfo (batch_num ?s) (length (current_batch ?s)),
         ApiCall (batch_num ?s) \<lparr>req_model = model a, req_job = job a, req_companies = ps\<rparr>,
         BatchError (batch_num ?s) e] ?s"
  have pb: "process_batch c l a n (i + length b - 1) ?s = (?s1, None)"
    using ps e nz by (rule process_batch_client_fails [where st = "?s" and c = c and a = a])
  have "\<exists>st'. run_batches c l a n (i + length b) bs ?s1 = (st', None) \<and>
           all_results st' = all_results ?s1 \<and> out_file st' = out_file ?s1 \<and>
           map fst (batch_errors (events st')) =
             map fst (batch_errors (events ?s1)) @ map fst (enumerate (batch_num ?s1) bs)"
  proof (rule Cons.IH)
    show "\<forall>b \<in> set bs. b \<noteq> [] \<and> (\<forall>x \<in> set b. is_entity x)" using Cons.prems(1) by simp
    show "i + length b + length (concat bs) = n" using Cons.prems(2) by simp
    show "batch_size a = 0 \<longrightarrow> length bs \<le> 1" using Cons.prems(3) by auto
  qed
  then obtain st' where r: "run_batches c l a n (i + length b) bs ?s1 = (st', None)"
    "all_results st' = all_results ?s1" "out_file st' = out_file ?s1"
    "map fst (batch_errors (events st')) =
       map fst (batch_errors (events ?s1)) @ map fst (enumerate (batch_num ?s1) bs)"
    by blast
  have "run_batches c l a n i (b # bs) st = (st', None)" using pb r(1) by simp
  moreover have "all_results st' = all_results st" "out_file st' = out_file st"
    using r(2,3) by simp_all
  moreover have "map fst (batch_errors (events st')) =
      map fst (batch_errors (events st)) @ map fst (enumerate (batch_num st) (b # bs))"
    using r(4) by simp
  ultimately show ?case by blast
qed

lemma analyze_batch_pacing:
  "pacing (events (fst (analyze_batch c l b k jb mdl st))) = pacing (events st)"
  by (auto simp: analyze_batch_def Let_def split: sum.splits list.splits option.splits)

lemma save_results_pacing:
  "pacing (events (fst (save_results rs f st))) = pacing (events st)"
  by (cases f) (auto split: prod.splits option.splits)

lemma accumulate_pacing:
  "pacing (events (fst (accumulate r f st))) = pacing (events st)"
proof -
  have "pacing (events (fst (save_results rs f (st\<lparr>all_results := xs\<rparr>)))) = pacing (events st)"
    for rs xs
    using save_results_pacing [of rs f "st\<lparr>all_results := xs\<rparr>"] by simp
  then show ?thesis
    by (auto simp: accumulate_def Let_def split: sum.splits prod.splits option.splits)
       (metis fst_conv)+
qed

lemma process_batch_last_pacing:
  assumes "\<not> int i < int n - 1"
  shows "pacing (events (fst (process_batch c l a n i st))) =
           pacing (events st) @ [ProcessingInfo (batch_num st) (length (current_batch st))]"
proof -
  let ?st1 = "emit (ProcessingInfo (batch_num st) (length (current_batch st))) st"
  obtain st2 r where ab:
    "analyze_batch c l (current_batch st) (batch_num st) (job a) (model a) ?st1 = (st2, r)"
    by (cases "analyze_batch c l (current_batch st) (batch_num st) (job a) (model a) ?st1")
  have p2: "pacing (events st2) = pacing (events ?st1)"
    using analyze_batch_pacing [of c l "current_batch st" "batch_num st" "job a" "model a" ?st1] ab
    by simp
  show ?thesis
  proof (cases r)
    case (Inl e)
    with ab p2 show ?thesis by (simp add: process_batch_def Let_def)
  next
    case (Inr result)
    obtain st3 x where acc: "(if truthy result then accumulate result (output_format a) st2
                    else (st2, None)) = (st3, x)"
      by (cases "if truthy result then accumulate result (output_format a) st2 else (st2, None)")
    have p3: "pacing (events st3) = pacing (events st2)"
      using acc accumulate_pacing [of result "output_format a" st2]
      by (auto split: if_splits)
    from ab Inr acc p2 p3 assms show ?thesis
      by (cases x) (simp_all add: process_batch_def Let_def)
  qed
qed

lemma main_pacing:
  "pacing (events (fst (main c l a companies))) =
     pacing (events (fst (companies_loop c l a (length companies) 0 companies (init_state companies))))"
proof -
  obtain st1 x where lp:
    "companies_loop c l a (length companies) 0 companies (init_state companies) = (st1, x)"
    by (cases "companies_loop c l a (length companies) 0 companies (init_state companies)")
  show ?thesis
  proof (cases x)
    case (Some e)
    with lp show ?thesis by (simp add: main_def main_try_def)
  next
    case None
    show ?thesis
    proof (cases "sorted_by_score (all_results st1)")
      case (Inl e)
      with lp None show ?thesis by (simp add: main_def main_try_def)
    next
      case (Inr ys)
      obtain st2 y where sv: "save_results ys (output_format a) st1 = (st2, y)"
        by (cases "save_results ys (output_format a) st1")
      have p2: "pacing (events st2) = pacing (events st1)"
        using save_results_pacing [of ys "output_format a" st1] sv by simp
      show ?thesis
      proof (cases y)
        case (Some e)
        with lp None Inr sv p2 show ?thesis by (simp add: main_def main_try_def)
      next
        case None
        obtain st3 z where lt: "log_top (take 10 ys) (emit TopHeaderInfo st2) = (st3, z)"
          by (cases "log_top (take 10 ys) (emit TopHeaderInfo st2)")
        from log_top_views(4) [OF lt] p2 have "pacing (events st3) = pacing (events st1)" by simp
        with lp \<open>x = None\<close> Inr sv None lt show ?thesis
          by (cases z) (simp_all add: main_def main_try_def)
      qed
    qed
  qed
qed

lemma loop_single_batch:
  assumes "companies \<noteq> []" and "batch_size a \<le> 0 \<or> int (length companies) \<le> batch_size a"
  shows "companies_loop c l a (length companies) 0 companies (init_state companies) =
     process_batch c l a (length companies) (length companies - 1)
       ((init_state companies)\<lparr>current_batch := companies\<rparr>)"
proof -
  have "companies_loop c l a (length companies) 0 (companies @ []) (init_state companies) =
     (case process_batch c l a (length companies) (0 + length companies - 1)
             ((init_state companies)\<lparr>current_batch := current_batch (init_state companies) @ companies\<rparr>) of
        (st', Some e) \<Rightarrow> (st', Some e)
      | (st', None) \<Rightarrow> companies_loop c l a (length companies) (0 + length companies) [] st')"
  proof (rule loop_fill)
    show "companies \<noteq> []" by fact
    show "\<forall>j < length companies - 1.
       int (length (current_batch (init_state companies)) + j + 1) \<noteq> batch_size a \<and>
       int (0 + j) \<noteq> int (length companies) - 1"
      using assms(2) by (auto simp: init_state_def)
    show "int (length (current_batch (init_state companies)) + length companies) = batch_size a \<or>
       int (0 + length companies - 1) = int (length companies) - 1"
      using assms(1) by (cases companies) auto
  qed
  then show ?thesis
    by (simp add: init_state_def split: prod.splits option.splits)
qed

lemma process_batch_last_args:
  assumes "\<not> int i < int n - 1"
    and "job a' = job a" "model a' = model a" "output_format a' = output_format a"
  shows "process_batch c l a' n i st = process_batch c l a n i st"
  using assms
  by (auto simp: process_batch_def Let_def split: prod.splits sum.splits option.splits)

lemma process_batch_pacing:
  "pacing (events (fst (process_batch c l a n i st))) =
     pacing (events st) @ ProcessingInfo (batch_num st) (length (current_batch st)) #
       (if snd (process_batch c l a n i st) = None \<and> int i < int n - 1
        then [CostInfo (of_int (int i + 1) / of_int (batch_size a) * (1 / 100)), Sleep 2]
        else [])"
proof -
  let ?st1 = "emit (ProcessingInfo (batch_num st) (length (current_batch st))) st"
  obtain st2 r where ab:
    "analyze_batch c l (current_batch st) (batch_num st) (job a) (model a) ?st1 = (st2, r)"
    by (cases "analyze_batch c l (current_batch st) (batch_num st) (job a) (model a) ?st1")
  have p2: "pacing (events st2) = pacing (events ?st1)"
    using analyze_batch_pacing [of c l "current_batch st" "batch_num st" "job a" "model a" ?st1] ab
    by simp
  show ?thesis
  proof (cases r)
    case (Inl e)
    with ab p2 show ?thesis by (simp add: process_batch_def Let_def)
  next
    case (Inr result)
    obtain st3 x where acc: "(if truthy result then accumulate result (output_format a) st2
                    else (st2, None)) = (st3, x)"
      by (cases "if truthy result then accumulate result (output_format a) st2 else (st2, None)")
    have p3: "pacing (events st3) = pacing (events st2)"
      using acc accumulate_pacing [of result "output_format a" st2]
      by (auto split: if_splits)
    from ab Inr acc p2 p3 show ?thesis
      by (cases x) (simp_all add: process_batch_def Let_def rate_limit_handler_def)
  qed
qed

lemma run_batches_pacing_prefix:
  assumes "\<forall>b \<in> set bs. b \<noteq> []" and "i + length (concat bs) = n"
  shows "prefix (pacing (events (fst (run_batches c l a n i bs st))))
           (pacing (events st) @ pace_events (batch_size a) (batch_num st) i bs)"
  using assms
proof (induction bs arbitrary: st i)
  case Nil
  then show ?case by simp
next
  case (Cons b bs)
  let ?s = "st\<lparr>current_batch := b\<rparr>"
  let ?pi = "ProcessingInfo (batch_num st) (length b)"
  obtain st1 x where pb: "process_batch c l a n (i + length b - 1) ?s = (st1, x)"
    by (cases "process_batch c l a n (i + length b - 1) ?s")
  from Cons.prems have bne: "b \<noteq> []" and ne': "\<forall>x \<in> set bs. x \<noteq> []"
    and len': "i + length b + length (concat bs) = n" by simp_all
  have lastp: "int (i + length b - 1) < int n - 1 \<longleftrightarrow> bs \<noteq> []"
  proof (cases bs)
    case Nil
    with len' bne show ?thesis by simp
  next
    case (Cons b' bs')
    with ne' have "0 < length b'" by simp
    then have "0 < length (concat bs)" using Cons by simp
    moreover have "0 < length b" using bne by simp
    ultimately have "int (i + length b - 1) < int n - 1" using len' by linarith
    with Cons show ?thesis by simp
  qed
  have tot: "int (i + length b - 1) + 1 = int (i + length b)"
    using bne by (cases b) auto
  have start: "pace_events (batch_size a) (batch_num st) i (b # bs) = ?pi # tl (pace_events (batch_size a) (batch_num st) i (b # bs))"
    by (cases bs) simp_all
  note pp = process_batch_pacing [of c l a n "i + length b - 1" ?s]
  show ?case
  proof (cases x)
    case (Some e)
    with pb pp have "pacing (events (fst (run_batches c l a n i (b # bs) st))) = pacing (events st) @ [?pi]"
      by simp
    moreover have "prefix (pacing (events st) @ [?pi])
        (pacing (events st) @ ?pi # tl (pace_events (batch_size a) (batch_num st) i (b # bs)))"
      by simp
    ultimately show ?thesis using start by simp
  next
    case None
    with pb have k1: "batch_num st1 = Suc (batch_num st)"
      using process_batch_ok(1) [of c l a n "i + length b - 1" ?s st1] by simp
    from pb None pp lastp tot have p1: "pacing (events st1) = pacing (events st) @ ?pi #
        (if bs \<noteq> [] then [CostInfo (of_int (int (i + length b)) / of_int (batch_size a) * (1 / 100)), Sleep 2]
         else [])"
      by simp
    have e: "pacing (events st1) @ pace_events (batch_size a) (batch_num st1) (i + length b) bs
        = pacing (events st) @ pace_events (batch_size a) (batch_num st) i (b # bs)"
      using p1 k1 by (cases bs) simp_all
    have "prefix (pacing (events (fst (run_batches c l a n (i + length b) bs st1))))
           (pacing (events st1) @ pace_events (batch_size a) (batch_num st1) (i + length b) bs)"
      by (rule Cons.IH [OF ne' len'])
    with pb None e show ?thesis by simp
  qed
qed

lemma main_pacing_prefix:
  "prefix (pacing (events (fst (main c l a companies))))
     (pace_events (batch_size a) 1 0 (batches_of (batch_size a) companies))"
proof -
  let ?bs = "batches_of (batch_size a) companies"
  have ne: "\<forall>b \<in> set ?bs. b \<noteq> []" using batches_of_nonempty by blast
  have len: "0 + length (concat ?bs) = length companies" by (simp add: concat_batches_of)
  from run_batches_pacing_prefix [OF ne len, of c l a "init_state companies"]
  have "prefix (pacing (events (fst (run_batches c l a (length companies) 0 ?bs (init_state companies)))))
      (pace_events (batch_size a) 1 0 ?bs)"
    by (simp add: init_state_def)
  then show ?thesis by (simp only: main_pacing loop_batches)
qed

lemma processing_pacing: "processing (pacing es) = processing es"
  by (induction es) (auto simp: pacing_def processing_def split: event.splits)

lemma processing_pace_events:
  "processing (pace_events B k m bs) = enumerate k (map length bs)"
  by (induction B k m bs rule: pace_events.induct) simp_all

lemma prefix_processing: "prefix es fs \<Longrightarrow> prefix (processing es) (processing fs)"
  by (auto simp: prefix_def)

lemma main_processing_prefix:
  "prefix (processing (events (fst (main c l a companies))))
     (numbered (map length (batches_of (batch_size a) companies)))"
  using prefix_processing [OF main_pacing_prefix [of c l a companies]]
  by (simp add: processing_pacing processing_pace_events numbered_def)

section \<open>Batching\<close>

lemma ex_main_completes:
  "main ex_client ex_loads ex_args ex_companies =
     (fst (main ex_client ex_loads ex_args ex_companies), None)"
proof -
  have "snd (main ex_client ex_loads ex_args ex_companies) = None" by code_simp
  then show ?thesis by (simp add: prod_eq_iff)
qed

text \<open>
  C2. For a non-empty list of \<open>N\<close> companies and a batch size \<open>B\<close> of at least 1, the
  loop is the processing, one after the other, of the batches \<open>bs\<close> of the partition,
  each at the index of its last company. These batches are contiguous and in order
  (their concatenation is the list), there are exactly \<open>ceil(N/B)\<close> of them, every
  batch but the last has \<open>B\<close> companies and the last has \<open>N mod B\<close>, or \<open>B\<close> when
  that is zero. In every run the batches announced in the log, with number and size,
  are an initial segment of the numbered partition; in a run that completes they are
  all of it, and the company fields sent to the client, batch after batch, are those
  of the input list in order.
\<close>

theorem batches_partition:
  assumes "companies \<noteq> []" and "1 \<le> batch_size a"
    and "bs = batches_of (batch_size a) companies"
  shows "companies_loop client loads a (length companies) 0 companies (init_state companies) =
           run_batches client loads a (length companies) 0 bs (init_state companies) \<and>
         concat bs = companies \<and>
         length bs = (length companies + nat (batch_size a) - 1) div nat (batch_size a) \<and>
         (\<forall>j < length bs.
            length (bs ! j) =
              (if Suc j < length bs then nat (batch_size a)
               else if length companies mod nat (batch_size a) = 0 then nat (batch_size a)
               else length companies mod nat (batch_size a))) \<and>
         prefix (processing (events (fst (main client loads a companies))))
           (numbered (map length bs)) \<and>
         (\<forall>st. main client loads a companies = (st, None) \<longrightarrow>
            processing (events st) = numbered (map length bs) \<and>
            map length (api_batches (events st)) = map length bs \<and>
            render_companies companies = Inr (concat (api_batches (events st))))"
proof -
  from assms(2) have pos: "0 < batch_size a" by simp
  have c1: "companies_loop client loads a (length companies) 0 companies (init_state companies) =
           run_batches client loads a (length companies) 0 bs (init_state companies)"
    unfolding assms(3) by (rule loop_batches)
  have c2: "concat bs = companies" unfolding assms(3) by (rule concat_batches_of)
  have c3: "length bs = (length companies + nat (batch_size a) - 1) div nat (batch_size a)"
    unfolding assms(3) by (rule length_batches_of [OF pos])
  have c4: "\<forall>j < length bs.
            length (bs ! j) =
              (if Suc j < length bs then nat (batch_size a)
               else if length companies mod nat (batch_size a) = 0 then nat (batch_size a)
               else length companies mod nat (batch_size a))"
    unfolding assms(3) using size_batches_of [OF pos] by blast
  have c5: "prefix (processing (events (fst (main client loads a companies))))
           (numbered (map length bs))"
    unfolding assms(3) by (rule main_processing_prefix)
  have c6: "processing (events st) = numbered (map length bs) \<and>
            map length (api_batches (events st)) = map length bs \<and>
            render_companies companies = Inr (concat (api_batches (events st)))"
    if m: "main client loads a companies = (st, None)" for st
  proof -
    note v = main_ok_batches [OF m]
    have r: "\<forall>b \<in> set bs. render_companies b = Inr (render_ps b)"
      using v(3) by (simp add: assms(3))
    have "render_companies (concat bs) = Inr (concat (map render_ps bs))"
      using r by (rule render_companies_concat)
    moreover have "map length (map render_ps bs) = map length bs"
      using r by (auto dest: length_render_ps)
    ultimately show ?thesis using v(1,2) c2 by (simp add: assms(3) numbered_def)
  qed
  from c1 c2 c3 c4 c5 c6 show ?thesis by blast
qed

theorem batches_partition_witness:
  "ex_companies \<noteq> [] \<and> 1 \<le> batch_size ex_args \<and>
   batches_of (batch_size ex_args) ex_companies =
     [[entity ''Acme'' ''robots'', entity ''Bolt'' ''bikes''], [entity ''Cafe'' ''coffee'']] \<and>
   length (batches_of (batch_size ex_args) ex_companies) = (3 + 2 - 1) div 2 \<and>
   snd (main ex_client ex_loads ex_args ex_companies) = None \<and>
   processing (events (fst (main ex_client ex_loads ex_args ex_companies))) = [(1, 2), (2, 1)] \<and>
   render_companies ex_companies =
     Inr (concat (api_batches (events (fst (main ex_client ex_loads ex_args ex_companies)))))"
proof -
  have ne: "ex_companies \<noteq> []" by (simp add: ex_companies_def)
  have pos: "1 \<le> batch_size ex_args" by (simp add: ex_args_def)
  have b: "batches_of (batch_size ex_args) ex_companies =
     [[entity ''Acme'' ''robots'', entity ''Bolt'' ''bikes''], [entity ''Cafe'' ''coffee'']]"
    by code_simp
  have p: "processing (events (fst (main ex_client ex_loads ex_args ex_companies))) = [(1, 2), (2, 1)]"
    by code_simp
  have n: "length ex_companies = 3" "nat (batch_size ex_args) = 2"
    by (simp_all add: ex_companies_def ex_args_def)
  from batches_partition [OF ne pos refl, of ex_client ex_loads]
  have "length (batches_of (batch_size ex_args) ex_companies)
          = (length ex_companies + nat (batch_size ex_args) - 1) div nat (batch_size ex_args)"
    and "\<forall>st. main ex_client ex_loads ex_args ex_companies = (st, None) \<longrightarrow>
            processing (events st) = numbered (map length (batches_of (batch_size ex_args) ex_companies)) \<and>
            map length (api_batches (events st)) = map length (batches_of (batch_size ex_args) ex_companies) \<and>
            render_companies ex_companies = Inr (concat (api_batches (events st)))"
    by blast+
  with ex_main_completes ne pos b p n show ?thesis by (simp add: prod_eq_iff)
qed

section \<open>Pacing\<close>



section \<open>A client that always fails\<close>

text \<open>
  C5. When every company of a non-empty input list is an entity (an object with the
  fields \<^verbatim>\<open>company\<close> and \<^verbatim>\<open>about\<close>) and the client raises on every call, the run
  completes: every batch of the partition is announced, exactly one error is logged per
  batch, with the number of that batch, and the output file holds the empty result list.
\<close>

theorem client_always_fails:
  assumes "companies \<noteq> []" and "\<forall>c \<in> set companies. is_entity c"
    and "\<forall>k r. \<exists>e. client k r = Inl e"
  shows "\<exists>st. main client loads a companies = (st, None) \<and>
           out_file st = Some (file_of (output_format a) []) \<and>
           processing (events st) = numbered (map length (batches_of (batch_size a) companies)) \<and>
           map fst (batch_errors (events st)) = map fst (processing (events st))"
proof -
  let ?bs = "batches_of (batch_size a) companies"
  let ?f = "output_format a"
  have ent: "\<forall>b \<in> set ?bs. b \<noteq> [] \<and> (\<forall>x \<in> set b. is_entity x)"
  proof (intro ballI conjI)
    fix b assume b: "b \<in> set ?bs"
    then show "b \<noteq> []" by (rule batches_of_nonempty)
    fix x assume "x \<in> set b"
    with b have "x \<in> set (concat ?bs)" by auto
    with assms(2) show "is_entity x" by (simp add: concat_batches_of)
  qed
  have one: "batch_size a = 0 \<longrightarrow> length ?bs \<le> 1"
    using assms(1) by (simp add: batches_of_simps_if)
  from run_batches_client_fails [OF assms(3) ent _ one, of 0 "length companies" loads "init_state companies"]
  obtain st1 where rb: "run_batches client loads a (length companies) 0 ?bs (init_state companies) = (st1, None)"
    and res: "all_results st1 = []"
    and errs: "map fst (batch_errors (events st1)) = map fst (enumerate 1 ?bs)"
    by (auto simp: concat_batches_of init_state_def)
  let ?st2 = "emit (SavedInfo ?f) (st1\<lparr>out_file := Some (file_of ?f [])\<rparr>)"
  let ?st = "emit TopHeaderInfo ?st2"
  have sv: "save_results [] ?f st1 = (?st2, None)" by (cases ?f) simp_all
  have srt: "sorted_by_score [] = Inr []" by (simp add: sorted_by_score_def)
  have m: "main client loads a companies = (?st, None)"
    using rb res sv srt by (simp add: main_def main_try_def loop_batches)
  have "processing (events ?st) = numbered (map length ?bs)"
    using main_ok_batches(1) [OF m] by (simp add: numbered_def)
  moreover have "map fst (batch_errors (events ?st)) = map fst (enumerate 1 ?bs)"
    using errs by simp
  moreover have "map fst (enumerate 1 ?bs) = map fst (numbered (map length ?bs))"
    by (simp add: numbered_def map_fst_enumerate)
  moreover have "out_file ?st = Some (file_of ?f [])" by simp
  ultimately show ?thesis using m by metis
qed

theorem client_always_fails_witness:
  "ex_companies \<noteq> [] \<and> list_all is_entity ex_companies \<and>
   main failing_client ex_loads ex_args ex_companies =
     (\<lparr>events =
        [LoadedInfo 3,
         ProcessingInfo 1 2,
         ApiCall 1 \<lparr>req_model = ''gpt-4o-mini'', req_job = ''data engineer'',
                    req_companies = [(JStr ''Acme'', JStr ''robots''), (JStr ''Bolt'', JStr ''bikes'')]\<rparr>,
         BatchError 1 (APIError ''connection refused''),
         CostInfo (1 / 100), Sleep 2,
         ProcessingInfo 2 1,
         ApiCall 2 \<lparr>req_model = ''gpt-4o-mini'', req_job = ''data engineer'',
                    req_companies = [(JStr ''Cafe'', JStr ''coffee'')]\<rparr>,
         BatchError 2 (APIError ''connection refused''),
         SavedInfo Json, TopHeaderInfo],
       out_file = Some (JsonFile []), current_batch = [], all_results = [], batch_num = 3\<rparr>,
      None) \<and>
   (\<exists>st. main failing_client ex_loads ex_args ex_companies = (st, None) \<and>
      out_file st = Some (file_of (output_format ex_args) []) \<and>
      map fst (batch_errors (events st)) = map fst (processing (events st)))"
proof -
  have ne: "ex_companies \<noteq> []" by (simp add: ex_companies_def)
  have ent: "\<forall>c \<in> set ex_companies. is_entity c" by (simp add: ex_companies_def entity_def)
  have fl: "\<forall>k r. \<exists>e. failing_client k r = Inl e" by (simp add: failing_client_def)
  have v: "main failing_client ex_loads ex_args ex_companies =
     (\<lparr>events =
        [LoadedInfo 3,
         ProcessingInfo 1 2,
         ApiCall 1 \<lparr>req_model = ''gpt-4o-mini'', req_job = ''data engineer'',
                    req_companies = [(JStr ''Acme'', JStr ''robots''), (JStr ''Bolt'', JStr ''bikes'')]\<rparr>,
         BatchError 1 (APIError ''connection refused''),
         CostInfo (1 / 100), Sleep 2,
         ProcessingInfo 2 1,
         ApiCall 2 \<lparr>req_model = ''gpt-4o-mini'', req_job = ''data engineer'',
                    req_companies = [(JStr ''Cafe'', JStr ''coffee'')]\<rparr>,
         BatchError 2 (APIError ''connection refused''),
         SavedInfo Json, TopHeaderInfo],
       out_file = Some (JsonFile []), current_batch = [], all_results = [], batch_num = 3\<rparr>,
      None)"
    by code_simp
  from client_always_fails [OF ne ent fl, of ex_loads ex_args] ne ent v
  show ?thesis unfolding list_all_iff by blast
qed

section \<open>Checkpoints\<close>



section \<open>A batch size that is not positive\<close>

text \<open>
  C9. With a non-empty list and a batch size that is not positive, the loop is one call
  of the loop body, on the whole list, at the index of the last company. The batch size
  then plays no part: the run is the run with the batch size set to the length of the
  list, and whatever the outcome of the batch, one batch is announced, with all the
  companies, and neither a cost estimate nor a sleep follows (so the division by the
  batch size is never evaluated).
\<close>

theorem nonpositive_batch_size_single_batch:
  assumes "companies \<noteq> []" and "batch_size a \<le> 0"
  shows "companies_loop client loads a (length companies) 0 companies (init_state companies) =
           process_batch client loads a (length companies) (length companies - 1)
             ((init_state companies)\<lparr>current_batch := companies\<rparr>) \<and>
         main client loads a companies =
           main client loads (a\<lparr>batch_size := int (length companies)\<rparr>) companies \<and>
         pacing (events (fst (main client loads a companies))) =
           [ProcessingInfo 1 (length companies)]"
proof -
  let ?n = "length companies" and ?a' = "a\<lparr>batch_size := int (length companies)\<rparr>"
  let ?s = "(init_state companies)\<lparr>current_batch := companies\<rparr>"
  have l: "companies_loop client loads a ?n 0 companies (init_state companies) =
      process_batch client loads a ?n (?n - 1) ?s"
    using assms by (intro loop_single_batch) simp_all
  have l': "companies_loop client loads ?a' ?n 0 companies (init_state companies) =
      process_batch client loads ?a' ?n (?n - 1) ?s"
    using assms(1) by (intro loop_single_batch) simp_all
  have last: "\<not> int (?n - 1) < int ?n - 1" using assms(1) by (cases companies) auto
  have "process_batch client loads ?a' ?n (?n - 1) ?s = process_batch client loads a ?n (?n - 1) ?s"
    using last by (rule process_batch_last_args) simp_all
  with l l' have "main_try client loads ?a' companies = main_try client loads a companies"
    by (auto simp: main_try_def split: prod.splits sum.splits option.splits)
  then have "main client loads a companies = main client loads ?a' companies"
    by (simp add: main_def)
  moreover have "pacing (events (fst (main client loads a companies))) = [ProcessingInfo 1 ?n]"
    using main_pacing [of client loads a companies] l
      process_batch_last_pacing [OF last, of client loads a ?s]
    by (simp add: init_state_def)
  ultimately show ?thesis using l by blast
qed

theorem nonpositive_batch_size_single_batch_witness:
  "ex_companies \<noteq> [] \<and> batch_size ex_args_zero \<le> 0 \<and>
   main ex_client ex_loads ex_args_zero ex_companies =
     main ex_client ex_loads (ex_args_zero\<lparr>batch_size := int (length ex_companies)\<rparr>) ex_companies \<and>
   pacing (events (fst (main ex_client ex_loads ex_args_zero ex_companies))) =
     [ProcessingInfo 1 (length ex_companies)] \<and>
   length ex_companies = 3 \<and>
   api_batches (events (fst (main ex_client ex_loads ex_args_zero ex_companies))) =
     [[(JStr ''Acme'', JStr ''robots''), (JStr ''Bolt'', JStr ''bikes''), (JStr ''Cafe'', JStr ''coffee'')]] \<and>
   snd (main ex_client ex_loads ex_args_zero ex_companies) = None"
proof -
  have ne: "ex_companies \<noteq> []" by (simp add: ex_companies_def)
  have np: "batch_size ex_args_zero \<le> 0" by (simp add: ex_args_zero_def)
  have n: "length ex_companies = 3" by (simp add: ex_companies_def)
  have v: "api_batches (events (fst (main ex_client ex_loads ex_args_zero ex_companies))) =
     [[(JStr ''Acme'', JStr ''robots''), (JStr ''Bolt'', JStr ''bikes''), (JStr ''Cafe'', JStr ''coffee'')]]"
    "snd (main ex_client ex_loads ex_args_zero ex_companies) = None"
    by code_simp+
  from nonpositive_batch_size_single_batch [OF ne np, of ex_client ex_loads] ne np n v
  show ?thesis by blast
qed

section \<open>Falsy results\<close>

text \<open>
  C10. When the batch that ends at a company gets a response that parses into a falsy
  JSON value, the loop goes on with the next company in a state where only this has
  happened: the batch and the call are in the events, the current batch is empty and the
  batch number is one more, with the cost line and the sleep if companies remain. The
  accumulated results and the output file are untouched and nothing is saved. A batch
  whose call raises is left in the same state, with the logged error as one more event.
\<close>

theorem falsy_result_skipped:
  assumes "int (length (current_batch st) + 1) = batch_size a \<or> int i = int n - 1"
    and "render_companies (current_batch st @ [company]) = Inr ps"
    and "req = \<lparr>req_model = model a, req_job = job a, req_companies = ps\<rparr>"
    and "client (batch_num st) req = Inr (Some reply # others)"
    and "loads (extract_json_from_response reply) = Inr v"
    and "\<not> truthy v"
  shows "companies_loop client loads a n i (company # rest) st =
           companies_loop client loads a n (i + 1) rest
             (advance a n i
                [ProcessingInfo (batch_num st) (length (current_batch st) + 1),
                 ApiCall (batch_num st) req] st) \<and>
         all_results (advance a n i
                [ProcessingInfo (batch_num st) (length (current_batch st) + 1),
                 ApiCall (batch_num st) req] st) = all_results st \<and>
         out_file (advance a n i
                [ProcessingInfo (batch_num st) (length (current_batch st) + 1),
                 ApiCall (batch_num st) req] st) = out_file st \<and>
         (\<forall>client' e. client' (batch_num st) req = Inl e \<longrightarrow>
            companies_loop client' loads a n i (company # rest) st =
              companies_loop client' loads a n (i + 1) rest
                (advance a n i
                   [ProcessingInfo (batch_num st) (length (current_batch st) + 1),
                    ApiCall (batch_num st) req, BatchError (batch_num st) e] st))"
proof -
  let ?s = "st\<lparr>current_batch := current_batch st @ [company]\<rparr>"
  have nz: "int i < int n - 1 \<longrightarrow> batch_size a \<noteq> 0" using assms(1) by auto
  have adv: "advance a n i es ?s = advance a n i es st" for es
    by (simp add: advance_def)
  have "process_batch client loads a n i ?s =
      (advance a n i
        [ProcessingInfo (batch_num ?s) (length (current_batch ?s)),
         ApiCall (batch_num ?s) \<lparr>req_model = model a, req_job = job a, req_companies = ps\<rparr>] ?s,
       None)"
    using assms(2,4,5,6) nz unfolding assms(3)
    by (intro process_batch_falsy [where reply = reply and others = others and v = v]) simp_all
  then have f: "companies_loop client loads a n i (company # rest) st =
           companies_loop client loads a n (i + 1) rest
             (advance a n i
                [ProcessingInfo (batch_num st) (length (current_batch st) + 1),
                 ApiCall (batch_num st) req] st)"
    using assms(1,3) by (simp add: Let_def adv)
  have g: "companies_loop client' loads a n i (company # rest) st =
              companies_loop client' loads a n (i + 1) rest
                (advance a n i
                   [ProcessingInfo (batch_num st) (length (current_batch st) + 1),
                    ApiCall (batch_num st) req, BatchError (batch_num st) e] st)"
    if c': "client' (batch_num st) req = Inl e" for client' e
  proof -
    have "process_batch client' loads a n i ?s =
      (advance a n i
        [ProcessingInfo (batch_num ?s) (length (current_batch ?s)),
         ApiCall (batch_num ?s) \<lparr>req_model = model a, req_job = job a, req_companies = ps\<rparr>,
         BatchError (batch_num ?s) e] ?s,
       None)"
      using assms(2) c' nz unfolding assms(3)
      by (intro process_batch_client_fails) simp_all
    then show ?thesis using assms(1,3) by (simp add: Let_def adv)
  qed
  from f g show ?thesis by simp
qed

theorem falsy_result_skipped_witness:
  "companies_loop empty_object_client ex_loads ex_args 3 1
       [entity ''Bolt'' ''bikes'', entity ''Cafe'' ''coffee'']
       ((init_state ex_companies)\<lparr>current_batch := [entity ''Acme'' ''robots'']\<rparr>) =
     companies_loop empty_object_client ex_loads ex_args 3 (1 + 1) [entity ''Cafe'' ''coffee'']
       (advance ex_args 3 1
          [ProcessingInfo 1 (1 + 1),
           ApiCall 1 \<lparr>req_model = model ex_args, req_job = job ex_args,
                      req_companies = [(JStr ''Acme'', JStr ''robots''), (JStr ''Bolt'', JStr ''bikes'')]\<rparr>]
          ((init_state ex_companies)\<lparr>current_batch := [entity ''Acme'' ''robots'']\<rparr>)) \<and>
   main empty_object_client ex_loads ex_args ex_companies =
     (\<lparr>events =
        [LoadedInfo 3,
         ProcessingInfo 1 2,
         ApiCall 1 \<lparr>req_model = ''gpt-4o-mini'', req_job = ''data engineer'',
                    req_companies = [(JStr ''Acme'', JStr ''robots''), (JStr ''Bolt'', JStr ''bikes'')]\<rparr>,
         CostInfo (1 / 100), Sleep 2,
         ProcessingInfo 2 1,
         ApiCall 2 \<lparr>req_model = ''gpt-4o-mini'', req_job = ''data engineer'',
                    req_companies = [(JStr ''Cafe'', JStr ''coffee'')]\<rparr>,
         SavedInfo Json, TopHeaderInfo],
       out_file = Some (JsonFile []), current_batch = [], all_results = [], batch_num = 3\<rparr>,
      None)"
proof -
  let ?st = "(init_state ex_companies)\<lparr>current_batch := [entity ''Acme'' ''robots'']\<rparr>"
  let ?req = "\<lparr>req_model = model ex_args, req_job = job ex_args,
       req_companies = [(JStr ''Acme'', JStr ''robots''), (JStr ''Bolt'', JStr ''bikes'')]\<rparr>"
  have h1: "int (length (current_batch ?st) + 1) = batch_size ex_args \<or> int (1::nat) = int (3::nat) - 1"
    by (simp add: ex_args_def)
  have h2: "render_companies (current_batch ?st @ [entity ''Bolt'' ''bikes'']) =
      Inr [(JStr ''Acme'', JStr ''robots''), (JStr ''Bolt'', JStr ''bikes'')]"
    by (simp add: entity_def)
  have h4: "empty_object_client (batch_num ?st) ?req = Inr (Some ''{}'' # [])"
    by (simp add: empty_object_client_def)
  have h5: "ex_loads (extract_json_from_response ''{}'') = Inr (JObj [])"
    by code_simp
  have h6: "\<not> truthy (JObj [])" by simp
  have b: "batch_num ?st = 1" "length (current_batch ?st) = 1" by (simp_all add: init_state_def)
  have m: "main empty_object_client ex_loads ex_args ex_companies =
     (\<lparr>events =
        [LoadedInfo 3,
         ProcessingInfo 1 2,
         ApiCall 1 \<lparr>req_model = ''gpt-4o-mini'', req_job = ''data engineer'',
                    req_companies = [(JStr ''Acme'', JStr ''robots''), (JStr ''Bolt'', JStr ''bikes'')]\<rparr>,
         CostInfo (1 / 100), Sleep 2,
         ProcessingInfo 2 1,
         ApiCall 2 \<lparr>req_model = ''gpt-4o-mini'', req_job = ''data engineer'',
                    req_companies = [(JStr ''Cafe'', JStr ''coffee'')]\<rparr>,
         SavedInfo Json, TopHeaderInfo],
       out_file = Some (JsonFile []), current_batch = [], all_results = [], batch_num = 3\<rparr>,
      None)"
    by code_simp
  from falsy_result_skipped [where st = "?st" and a = ex_args and i = 1 and n = 3
      and company = "entity ''Bolt'' ''bikes''" and req = "?req" and client = empty_object_client
      and loads = ex_loads and rest = "[entity ''Cafe'' ''coffee'']", OF h1 h2 refl h4 h5 h6]
  have "companies_loop empty_object_client ex_loads ex_args 3 1
       (entity ''Bolt'' ''bikes'' # [entity ''Cafe'' ''coffee'']) ?st =
     companies_loop empty_object_client ex_loads ex_args 3 (1 + 1) [entity ''Cafe'' ''coffee'']
       (advance ex_args 3 1
          [ProcessingInfo (batch_num ?st) (length (current_batch ?st) + 1),
           ApiCall (batch_num ?st) ?req] ?st)"
    by blast
  then show ?thesis using m unfolding b by simp
qed

section \<open>A response without the expected key\<close>

text \<open>
  C1 asks that a response that parses as JSON but lacks the key \<^verbatim>\<open>analyses\<close> be
  handled like any other failure of a batch: logged with the batch number, no results
  from the batch, the loop going on. The code does not do so. Here the response to the
  first of three batches is the text of an object without that key: the lookup in
  \<^verbatim>\<open>main\<close> raises KeyError outside the handler of the analyzer, the run ends there
  with the error logged by the handler of \<^verbatim>\<open>main\<close>, no batch error is logged, the
  second and third batch are never processed and no output file is written.
\<close>

theorem missing_key_aborts_run:
  "main no_key_client ex_loads (ex_args\<lparr>batch_size := 1\<rparr>) ex_companies =
     (\<lparr>events =
        [LoadedInfo 3,
         ProcessingInfo 1 1,
         ApiCall 1 \<lparr>req_model = ''gpt-4o-mini'', req_job = ''data engineer'',
                    req_companies = [(JStr ''Acme'', JStr ''robots'')]\<rparr>,
         MainError (KeyError ''analyses'')],
       out_file = None, current_batch = [entity ''Acme'' ''robots''], all_results = [],
       batch_num = 1\<rparr>,
      Some (KeyError ''analyses''))"
  by code_simp

end
